theory Spec2Isabelle
  imports Main "HOL-Library.Word"
begin

unbundle bit_operations_syntax

section \<open>Common types\<close>

text \<open>
  Go's \<open>uint64\<close> is a 64-bit word: \<open>+\<close> and \<open>-\<close> wrap around, \<open>\<le>\<close> and \<open><\<close> compare
  the unsigned values. Go's \<open>int\<close> and \<open>int64\<close> (64-bit platforms) are 64-bit words read
  through \<open>sint\<close>. A run-time panic of the Go program is a value of type \<open>panic\<close>.
\<close>

type_synonym uint64 = "64 word"
type_synonym int64 = "64 word"
type_synonym byte = "8 word"

datatype panic =
    SizeNotPowerOfTwo     \<comment> \<open>\<open>panic("size must be power of 2")\<close>\<close>
  | MakeLenOutOfRange     \<comment> \<open>\<open>make([]T, n)\<close>: the runtime cannot provide \<open>n\<close> elements\<close>
  | IndexOutOfRange       \<comment> \<open>index expression outside \<open>0 \<le> i < len\<close>\<close>
  | OutOfMemory           \<comment> \<open>\<open>panic("arena: out of memory")\<close>\<close>
  | DivideByZero          \<comment> \<open>integer remainder by zero\<close>
  | UnsafeSliceLen        \<comment> \<open>\<open>unsafe.Slice\<close> with a negative length\<close>
  | SliceBounds           \<comment> \<open>slice expression \<open>s[:n]\<close> outside \<open>0 \<le> n \<le> cap\<close>\<close>
  | MemoryFault           \<comment> \<open>a store through an unsafe pointer leaves the arena's region\<close>

section \<open>Package fastqueue: the SPSC ring buffer\<close>

text \<open>
  The struct \<open>RingBuffer[T]\<close>. The cache-line padding fields carry no data and are left
  out. The fields \<open>size\<close>, \<open>mask\<close>, \<open>head\<close> and \<open>tail\<close> clash with constants of HOL and
  carry the prefix \<open>rb_\<close>.
\<close>

record 'a RingBuffer =
  rb_buffer :: "'a list"
  rb_size :: uint64
  rb_mask :: uint64
  rb_head :: uint64
  rb_tail :: uint64

text \<open>
  \<open>New[T](size)\<close>. The zero value of \<open>T\<close>, with which \<open>make\<close> fills the slice, is the
  parameter \<open>zero\<close>. \<open>make([]T, size)\<close> panics when the runtime cannot provide \<open>size\<close>
  elements; the largest length it grants belongs to the runtime, not to the repository,
  and is the parameter \<open>maxlen\<close>.
\<close>

definition fastqueue_New :: "nat \<Rightarrow> 'a \<Rightarrow> uint64 \<Rightarrow> panic + 'a RingBuffer" where
  "fastqueue_New maxlen zero sz =
     (if sz AND (sz - 1) \<noteq> 0 then Inl SizeNotPowerOfTwo
      else if maxlen < unat sz then Inl MakeLenOutOfRange
      else Inr \<lparr>rb_buffer = replicate (unat sz) zero, rb_size = sz, rb_mask = sz - 1,
                rb_head = 0, rb_tail = 0\<rparr>)"

text \<open>
  \<open>Push\<close> and \<open>Pop\<close>, run without interruption. The index expression
  \<open>rb.buffer[i]\<close> panics outside the slice.
\<close>

definition Push :: "'a \<Rightarrow> 'a RingBuffer \<Rightarrow> panic + (bool \<times> 'a RingBuffer)" where
  "Push item rb =
     (let head = rb_head rb; tail = rb_tail rb in
      if rb_size rb \<le> head - tail then Inr (False, rb)
      else let i = unat (head AND rb_mask rb) in
        if i < length (rb_buffer rb)
        then Inr (True, rb\<lparr>rb_buffer := (rb_buffer rb)[i := item], rb_head := rb_head rb + 1\<rparr>)
        else Inl IndexOutOfRange)"

definition Pop :: "'a \<Rightarrow> 'a RingBuffer \<Rightarrow> panic + (('a \<times> bool) \<times> 'a RingBuffer)" where
  "Pop zero rb =
     (let head = rb_head rb; tail = rb_tail rb; empty = zero in
      if head \<le> tail then Inr ((empty, False), rb)
      else let i = unat (tail AND rb_mask rb) in
        if i < length (rb_buffer rb)
        then Inr ((rb_buffer rb ! i, True), rb\<lparr>rb_tail := rb_tail rb + 1\<rparr>)
        else Inl IndexOutOfRange)"

text \<open>
  A sequential use of the queue is a list of calls; running it gives the list of their
  results, in order, and the final queue. A panic ends the run.
\<close>

datatype 'a call = CallPush 'a | CallPop

datatype 'a result = Pushed 'a bool | Popped 'a bool

fun run :: "'a \<Rightarrow> 'a call list \<Rightarrow> 'a RingBuffer \<Rightarrow> panic + ('a result list \<times> 'a RingBuffer)" where
  "run zero [] rb = Inr ([], rb)"
| "run zero (CallPush x # cs) rb =
     (case Push x rb of
        Inl p \<Rightarrow> Inl p
      | Inr (ok, rb') \<Rightarrow>
          (case run zero cs rb' of
             Inl p \<Rightarrow> Inl p
           | Inr (rs, rb'') \<Rightarrow> Inr (Pushed x ok # rs, rb'')))"
| "run zero (CallPop # cs) rb =
     (case Pop zero rb of
        Inl p \<Rightarrow> Inl p
      | Inr ((x, ok), rb') \<Rightarrow>
          (case run zero cs rb' of
             Inl p \<Rightarrow> Inl p
           | Inr (rs, rb'') \<Rightarrow> Inr (Popped x ok # rs, rb'')))"

text \<open>The items pushed with success and the items popped with success, in order.\<close>

fun pushed :: "'a result list \<Rightarrow> 'a list" where
  "pushed [] = []"
| "pushed (Pushed x ok # rs) = (if ok then x # pushed rs else pushed rs)"
| "pushed (Popped x ok # rs) = pushed rs"

fun popped :: "'a result list \<Rightarrow> 'a list" where
  "popped [] = []"
| "popped (Pushed x ok # rs) = popped rs"
| "popped (Popped x ok # rs) = (if ok then x # popped rs else popped rs)"

text \<open>
  The items stored in the queue, oldest first: the slots \<open>tail & mask\<close>,
  \<open>(tail + 1) & mask\<close>, ... up to, excluding, \<open>head\<close>.
\<close>

definition contents :: "'a RingBuffer \<Rightarrow> 'a list" where
  "contents rb =
     map (\<lambda>i. rb_buffer rb ! unat ((rb_tail rb + of_nat i) AND rb_mask rb))
       [0 ..< unat (rb_head rb - rb_tail rb)]"

text \<open>
  The representation invariant of a queue: what \<open>New\<close> establishes for the read-only
  fields, and the bound on the distance of the two indices.
\<close>

definition rb_inv :: "'a RingBuffer \<Rightarrow> bool" where
  "rb_inv rb \<longleftrightarrow>
     rb_mask rb = rb_size rb - 1 \<and>
     rb_size rb AND (rb_size rb - 1) = 0 \<and>
     length (rb_buffer rb) = unat (rb_size rb) \<and>
     rb_head rb - rb_tail rb \<le> rb_size rb"

text \<open>
  A run that takes the 64-bit indices around: on a queue of capacity 1, push and pop the
  item \<open>0\<close> for \<open>2^64 - 1\<close> times, then push it once more. \<open>q_at h t\<close> is the queue of
  capacity 1 that holds the item \<open>0\<close> in its slot, with the indices \<open>h\<close> and \<open>t\<close>.
\<close>

definition cycles :: "nat \<Rightarrow> nat call list" where
  "cycles n = concat (replicate n [CallPush 0, CallPop])"

definition cycle_results :: "nat \<Rightarrow> nat result list" where
  "cycle_results n = concat (replicate n [Pushed 0 True, Popped 0 True])"

definition wrap_calls :: "nat call list" where
  "wrap_calls = cycles (2 ^ 64 - 1) @ [CallPush 0]"

definition wrap_results :: "nat result list" where
  "wrap_results = cycle_results (2 ^ 64 - 1) @ [Pushed 0 True]"

definition q_at :: "uint64 \<Rightarrow> uint64 \<Rightarrow> nat RingBuffer" where
  "q_at h t = \<lparr>rb_buffer = [0], rb_size = 1, rb_mask = 0, rb_head = h, rb_tail = t\<rparr>"


subsection \<open>One producer and one consumer, step by step\<close>

text \<open>
  Under the single-producer/single-consumer discipline two agents use the queue at the
  same time: one calls \<open>Push\<close>, the other calls \<open>Pop\<close>. Go's \<open>sync/atomic\<close> operations
  are sequentially consistent and order the plain accesses to the slot around them, so
  an execution is an interleaving of the accesses to the shared queue, taken one at a
  time in program order by each agent:
  \<^item> \<open>Push(item)\<close>: load \<open>head\<close>; load \<open>tail\<close> and return false if
    \<open>head - tail >= size\<close>; store \<open>item\<close> into \<open>buffer[head & mask]\<close>;
    \<open>atomic.AddUint64(&rb.head, 1)\<close> and return true.
  \<^item> \<open>Pop()\<close>: load \<open>head\<close>; load \<open>tail\<close> and return \<open>(empty, false)\<close> if
    \<open>tail >= head\<close>; load \<open>buffer[tail & mask]\<close>; \<open>atomic.AddUint64(&rb.tail, 1)\<close> and
    return the item with true.
  The states of an agent between its steps carry its local variables.
\<close>

datatype 'a producer =
    P_idle
  | P_head 'a uint64      \<comment> \<open>\<open>item\<close>; \<open>head\<close> is loaded\<close>
  | P_store 'a uint64     \<comment> \<open>\<open>item\<close>, \<open>head\<close>; the queue was not full\<close>
  | P_publish 'a          \<comment> \<open>the slot is written\<close>

datatype 'a consumer =
    C_idle
  | C_head uint64         \<comment> \<open>\<open>head\<close> is loaded\<close>
  | C_load uint64         \<comment> \<open>\<open>tail\<close>; the queue was not empty\<close>
  | C_publish 'a          \<comment> \<open>\<open>item\<close> is read\<close>

text \<open>
  A configuration: the shared queue, the producer with the items it is still going to
  push, the consumer, which calls \<open>Pop\<close> again and again, and the calls that have
  returned so far with their results, in the order of their returns.
\<close>

record 'a config =
  c_rb :: "'a RingBuffer"
  c_prod :: "'a producer"
  c_todo :: "'a list"
  c_cons :: "'a consumer"
  c_hist :: "'a result list"

definition start :: "'a RingBuffer \<Rightarrow> 'a list \<Rightarrow> 'a config" where
  "start rb items = \<lparr>c_rb = rb, c_prod = P_idle, c_todo = items, c_cons = C_idle, c_hist = []\<rparr>"

text \<open>
  One step of the producer. An idle producer begins the next \<open>Push\<close> of its list with
  the load of \<open>head\<close>; once the list is exhausted it does nothing.
\<close>

fun producer_step :: "'a config \<Rightarrow> panic + 'a config" where
  "producer_step c =
     (let rb = c_rb c in
      case c_prod c of
        P_idle \<Rightarrow>
          (case c_todo c of
             [] \<Rightarrow> Inr c
           | item # items \<Rightarrow> Inr (c\<lparr>c_prod := P_head item (rb_head rb), c_todo := items\<rparr>))
      | P_head item head \<Rightarrow>
          (let tail = rb_tail rb in
           if rb_size rb \<le> head - tail
           then Inr (c\<lparr>c_prod := P_idle, c_hist := c_hist c @ [Pushed item False]\<rparr>)
           else Inr (c\<lparr>c_prod := P_store item head\<rparr>))
      | P_store item head \<Rightarrow>
          (let i = unat (head AND rb_mask rb) in
           if i < length (rb_buffer rb)
           then Inr (c\<lparr>c_rb := rb\<lparr>rb_buffer := (rb_buffer rb)[i := item]\<rparr>,
                       c_prod := P_publish item\<rparr>)
           else Inl IndexOutOfRange)
      | P_publish item \<Rightarrow>
          Inr (c\<lparr>c_rb := rb\<lparr>rb_head := rb_head rb + 1\<rparr>, c_prod := P_idle,
                  c_hist := c_hist c @ [Pushed item True]\<rparr>))"

text \<open>One step of the consumer. An idle consumer begins a \<open>Pop\<close> with the load of \<open>head\<close>.\<close>

fun consumer_step :: "'a \<Rightarrow> 'a config \<Rightarrow> panic + 'a config" where
  "consumer_step zero c =
     (let rb = c_rb c in
      case c_cons c of
        C_idle \<Rightarrow> Inr (c\<lparr>c_cons := C_head (rb_head rb)\<rparr>)
      | C_head head \<Rightarrow>
          (let tail = rb_tail rb; empty = zero in
           if head \<le> tail
           then Inr (c\<lparr>c_cons := C_idle, c_hist := c_hist c @ [Popped empty False]\<rparr>)
           else Inr (c\<lparr>c_cons := C_load tail\<rparr>))
      | C_load tail \<Rightarrow>
          (let i = unat (tail AND rb_mask rb) in
           if i < length (rb_buffer rb)
           then Inr (c\<lparr>c_cons := C_publish (rb_buffer rb ! i)\<rparr>)
           else Inl IndexOutOfRange)
      | C_publish item \<Rightarrow>
          Inr (c\<lparr>c_rb := rb\<lparr>rb_tail := rb_tail rb + 1\<rparr>, c_cons := C_idle,
                  c_hist := c_hist c @ [Popped item True]\<rparr>))"

text \<open>
  An execution is given by its schedule: the list of the agents in the order in which
  they take their steps. A panic ends it.
\<close>

datatype agent = Producer | Consumer

fun exec :: "'a \<Rightarrow> agent list \<Rightarrow> 'a config \<Rightarrow> panic + 'a config" where
  "exec zero [] c = Inr c"
| "exec zero (Producer # sched) c =
     (case producer_step c of Inl p \<Rightarrow> Inl p | Inr c' \<Rightarrow> exec zero sched c')"
| "exec zero (Consumer # sched) c =
     (case consumer_step zero c of Inl p \<Rightarrow> Inl p | Inr c' \<Rightarrow> exec zero sched c')"

text \<open>
  The items of all the \<open>Push\<close> calls that have returned, and the item of the call in
  progress.
\<close>

fun attempted :: "'a result list \<Rightarrow> 'a list" where
  "attempted [] = []"
| "attempted (Pushed x ok # rs) = x # attempted rs"
| "attempted (Popped x ok # rs) = attempted rs"

fun in_progress :: "'a producer \<Rightarrow> 'a list" where
  "in_progress P_idle = []"
| "in_progress (P_head item head) = [item]"
| "in_progress (P_store item head) = [item]"
| "in_progress (P_publish item) = [item]"

text \<open>
  What holds of a configuration between any two steps. The producer's copy of \<open>head\<close> is
  current, since nobody else moves \<open>head\<close>; once it has seen room, there is room until
  it publishes, since \<open>tail\<close> only moves forward. The consumer's copy of \<open>tail\<close> is
  current; its copy of \<open>head\<close> may be old, but \<open>head\<close> has only moved away from \<open>tail\<close>.
\<close>

fun producer_inv :: "'a RingBuffer \<Rightarrow> 'a producer \<Rightarrow> bool" where
  "producer_inv rb P_idle \<longleftrightarrow> True"
| "producer_inv rb (P_head item head) \<longleftrightarrow> head = rb_head rb"
| "producer_inv rb (P_store item head) \<longleftrightarrow>
     head = rb_head rb \<and> rb_head rb - rb_tail rb < rb_size rb"
| "producer_inv rb (P_publish item) \<longleftrightarrow>
     rb_head rb - rb_tail rb < rb_size rb
     \<and> rb_buffer rb ! unat (rb_head rb AND rb_mask rb) = item"

fun consumer_inv :: "'a RingBuffer \<Rightarrow> 'a consumer \<Rightarrow> bool" where
  "consumer_inv rb C_idle \<longleftrightarrow> True"
| "consumer_inv rb (C_head head) \<longleftrightarrow> head - rb_tail rb \<le> rb_head rb - rb_tail rb"
| "consumer_inv rb (C_load tail) \<longleftrightarrow> tail = rb_tail rb \<and> rb_head rb \<noteq> rb_tail rb"
| "consumer_inv rb (C_publish item) \<longleftrightarrow>
     rb_head rb \<noteq> rb_tail rb \<and> rb_buffer rb ! unat (rb_tail rb AND rb_mask rb) = item"

definition config_inv :: "'a list \<Rightarrow> 'a config \<Rightarrow> bool" where
  "config_inv items c \<longleftrightarrow>
     rb_inv (c_rb c)
     \<and> producer_inv (c_rb c) (c_prod c)
     \<and> consumer_inv (c_rb c) (c_cons c)
     \<and> pushed (c_hist c) = popped (c_hist c) @ contents (c_rb c)
     \<and> attempted (c_hist c) @ in_progress (c_prod c) @ c_todo c = items"

section \<open>Package arena: the bump allocator\<close>

text \<open>
  The struct \<open>Arena\<close>: the region \<open>buf\<close> and the cursor \<open>offset\<close>, a Go \<open>int\<close>. The
  cursor and the other \<open>int\<close> values of this package are integers here, and every
  arithmetic operation of the code is followed by \<open>wrap64\<close>, which takes the
  mathematical result to the value the 64-bit machine computes. A pointer into the
  region is the offset of its first byte.
\<close>

record Arena =
  a_buf :: "byte list"
  a_offset :: int

definition wrap64 :: "int \<Rightarrow> int" where
  "wrap64 x = (x + 2 ^ 63) mod 2 ^ 64 - 2 ^ 63"

text \<open>Go's \<open>%\<close> truncates towards zero: the remainder has the sign of the dividend.\<close>

definition go_rem :: "int \<Rightarrow> int \<Rightarrow> int" where
  "go_rem x y = sgn x * (\<bar>x\<bar> mod \<bar>y\<bar>)"

text \<open>
  A well-formed arena: the cursor lies in the region, and the region is a Go slice, whose
  length is an \<open>int\<close>.
\<close>

definition arena_ok :: "Arena \<Rightarrow> bool" where
  "arena_ok a \<longleftrightarrow>
     0 \<le> a_offset a \<and> a_offset a \<le> int (length (a_buf a)) \<and> int (length (a_buf a)) < 2 ^ 63"

definition Reset :: "Arena \<Rightarrow> Arena" where
  "Reset a = a\<lparr>a_offset := 0\<rparr>"

text \<open>
  A store of \<open>n\<close> zero bytes at the offset \<open>p\<close> of the region: the assignment of the zero
  value of a type of size \<open>n\<close> through a pointer.
\<close>

definition store_zero :: "nat \<Rightarrow> nat \<Rightarrow> byte list \<Rightarrow> byte list" where
  "store_zero p n b = map (\<lambda>j. if p \<le> j \<and> j < p + n then 0 else b ! j) [0 ..< length b]"

text \<open>
  \<open>New[T](a)\<close>. The type \<open>T\<close> enters by \<open>unsafe.Sizeof\<close> and \<open>unsafe.Alignof\<close> only, the
  parameters \<open>sz\<close> (\<open>size\<close> in the code) and \<open>align\<close>; the sizes of Go types are far below \<open>2^63\<close>, so the
  conversion to \<open>int\<close> keeps them. The result is the offset of the object. The panics:
  the remainder by \<open>align\<close> (no Go type has the alignment 0), the out-of-memory test,
  and the bounds check of the index expression \<open>&a.buf[a.offset]\<close>, which the code
  evaluates after it has added the padding to the cursor. The assignment
  \<open>*(*T)(ptr) = zero\<close> stores \<open>sz\<close> zero bytes; where the object would not lie in
  the region (the additions have wrapped), the store goes to foreign memory and the
  model stops with \<open>MemoryFault\<close>. The arena in the result is the arena at the panic.
\<close>

definition arena_New :: "nat \<Rightarrow> nat \<Rightarrow> Arena \<Rightarrow> (panic + int) \<times> Arena" where
  "arena_New sz align a =
     (if align = 0 then (Inl DivideByZero, a)
      else
        let padding = go_rem (wrap64 (int align - go_rem (a_offset a) (int align))) (int align) in
        if int (length (a_buf a)) < wrap64 (wrap64 (a_offset a + padding) + int sz)
        then (Inl OutOfMemory, a)
        else
          let a1 = a\<lparr>a_offset := wrap64 (a_offset a + padding)\<rparr> in
          if \<not> (0 \<le> a_offset a1 \<and> a_offset a1 < int (length (a_buf a1)))
          then (Inl IndexOutOfRange, a1)
          else
            let ptr = a_offset a1;
                a2 = a1\<lparr>a_offset := wrap64 (a_offset a1 + int sz)\<rparr>
            in
              if int (length (a_buf a2)) < ptr + int sz then (Inl MemoryFault, a2)
              else (Inr ptr, a2\<lparr>a_buf := store_zero (nat ptr) sz (a_buf a2)\<rparr>))"

text \<open>
  The loop \<open>for i := 0; i < capacity; i++ { s[i] = empty }\<close> of \<open>MakeSlice\<close>: element
  \<open>i\<close> of the slice occupies the \<open>elemSize\<close> bytes from \<open>base + i * elemSize\<close>.
\<close>

function zero_loop :: "nat \<Rightarrow> nat \<Rightarrow> int \<Rightarrow> int \<Rightarrow> byte list \<Rightarrow> byte list" where
  "zero_loop elemSize base capacity i b =
     (if i < capacity
      then zero_loop elemSize base capacity (i + 1)
             (store_zero (base + nat i * elemSize) elemSize b)
      else b)"
  by pat_completeness auto
termination
  by (relation "measure (\<lambda>(elemSize, base, capacity, i, b). nat (capacity - i))") auto

text \<open>The equation unfolds without end, so it is used by hand only.\<close>

declare zero_loop.simps [simp del]

text \<open>
  A slice header: the offset of the first element in the region, the length and the
  capacity.
\<close>

record slice =
  s_data :: int
  s_len :: int
  s_cap :: int

text \<open>
  \<open>MakeSlice[T](a, length, capacity)\<close>; \<open>length\<close> and \<open>capacity\<close> are Go \<open>int\<close>s.
  After the steps it shares with \<open>New\<close>: \<open>unsafe.Slice\<close> panics on a negative length;
  where the \<open>capacity\<close> elements would not lie in the region (the multiplication or the
  additions have wrapped), \<open>unsafe.Slice\<close> panics or the stores of the loop go to foreign
  memory, and the model stops with \<open>MemoryFault\<close>; the slice expression \<open>s[:length]\<close>
  panics outside \<open>0 \<le> length \<le> capacity\<close>.
\<close>

definition MakeSlice :: "nat \<Rightarrow> nat \<Rightarrow> int \<Rightarrow> int \<Rightarrow> Arena \<Rightarrow> (panic + slice) \<times> Arena" where
  "MakeSlice elemSize elemAlign len capacity a =
     (if elemAlign = 0 then (Inl DivideByZero, a)
      else
        let sz = wrap64 (int elemSize * capacity);
            padding = go_rem (wrap64 (int elemAlign - go_rem (a_offset a) (int elemAlign)))
                        (int elemAlign)
        in
        if int (length (a_buf a)) < wrap64 (wrap64 (a_offset a + padding) + sz)
        then (Inl OutOfMemory, a)
        else
          let a1 = a\<lparr>a_offset := wrap64 (a_offset a + padding)\<rparr> in
          if \<not> (0 \<le> a_offset a1 \<and> a_offset a1 < int (length (a_buf a1)))
          then (Inl IndexOutOfRange, a1)
          else
            let basePtr = a_offset a1;
                a2 = a1\<lparr>a_offset := wrap64 (a_offset a1 + sz)\<rparr>
            in
              if capacity < 0 then (Inl UnsafeSliceLen, a2)
              else if int (length (a_buf a2)) < basePtr + int elemSize * capacity
              then (Inl MemoryFault, a2)
              else
                let a3 = a2\<lparr>a_buf := zero_loop elemSize (nat basePtr) capacity 0 (a_buf a2)\<rparr> in
                if len < 0 \<or> capacity < len then (Inl SliceBounds, a3)
                else (Inr \<lparr>s_data = basePtr, s_len = len, s_cap = capacity\<rparr>, a3))"

text \<open>
  A sequence of allocations in one epoch. A request names the function and its
  arguments; a span is the offset of the first byte handed out and the number of bytes;
  the run returns the spans handed out up to the first panic, the panic if there was
  one, and the arena.
\<close>

datatype request = ReqNew nat nat | ReqMakeSlice nat nat int int

type_synonym span = "int \<times> int"

fun req_align :: "request \<Rightarrow> nat" where
  "req_align (ReqNew sz align) = align"
| "req_align (ReqMakeSlice elemSize elemAlign len capacity) = elemAlign"

fun alloc :: "request \<Rightarrow> Arena \<Rightarrow> (panic + span) \<times> Arena" where
  "alloc (ReqNew sz align) a =
     (case arena_New sz align a of
        (Inl p, a') \<Rightarrow> (Inl p, a')
      | (Inr ptr, a') \<Rightarrow> (Inr (ptr, int sz), a'))"
| "alloc (ReqMakeSlice elemSize elemAlign len capacity) a =
     (case MakeSlice elemSize elemAlign len capacity a of
        (Inl p, a') \<Rightarrow> (Inl p, a')
      | (Inr s, a') \<Rightarrow> (Inr (s_data s, int elemSize * s_cap s), a'))"

fun allocs :: "request list \<Rightarrow> Arena \<Rightarrow> span list \<times> panic option \<times> Arena" where
  "allocs [] a = ([], None, a)"
| "allocs (r # rs) a =
     (case alloc r a of
        (Inl p, a') \<Rightarrow> ([], Some p, a')
      | (Inr sp, a') \<Rightarrow>
          (case allocs rs a' of (sps, e, a'') \<Rightarrow> (sp # sps, e, a'')))"

definition span_bytes :: "span \<Rightarrow> int set" where
  "span_bytes sp = {fst sp ..< fst sp + snd sp}"

text \<open>The padding that \<open>New\<close> and \<open>MakeSlice\<close> compute for a cursor and an alignment.\<close>

definition padding_of :: "int \<Rightarrow> int \<Rightarrow> int" where
  "padding_of off al = go_rem (wrap64 (al - go_rem off al)) al"

text \<open>
  Spans that follow each other in the region between \<open>lo\<close> and \<open>hi\<close>, each after the
  end of the one before.
\<close>

fun chained :: "int \<Rightarrow> int \<Rightarrow> span list \<Rightarrow> bool" where
  "chained lo hi [] \<longleftrightarrow> lo \<le> hi"
| "chained lo hi (sp # sps) \<longleftrightarrow> lo \<le> fst sp \<and> 0 \<le> snd sp \<and> chained (fst sp + snd sp) hi sps"

section \<open>Package zlog: the logger\<close>

text \<open>
  The struct \<open>Logger\<close>: its buffer, a byte slice, by its contents. Go strings are byte
  sequences; both are \<open>string\<close>s here. \<open>append\<close> extends the contents; whether it
  writes into the caller's array or into a new one does not show in the contents.
\<close>

record Logger =
  l_buf :: string

definition Wrap :: "string \<Rightarrow> Logger" where
  "Wrap buf = \<lparr>l_buf = buf\<rparr>"

definition appendString :: "string \<Rightarrow> Logger \<Rightarrow> Logger" where
  "appendString s l = l\<lparr>l_buf := l_buf l @ s\<rparr>"

text \<open>
  \<open>strconv.AppendInt(dst, i, 10)\<close> belongs to Go's standard library: it appends the
  decimal digits of \<open>i\<close>, most significant first, after a minus sign if \<open>i\<close> is
  negative.
\<close>

fun decimal :: "nat \<Rightarrow> string" where
  "decimal n = (if n < 10 then [''0123456789'' ! n]
                else decimal (n div 10) @ [''0123456789'' ! (n mod 10)])"

text \<open>The equation unfolds without end, so it is used by hand only.\<close>

declare decimal.simps [simp del]

definition FormatInt :: "int \<Rightarrow> string" where
  "FormatInt i = (if i < 0 then ''-'' @ decimal (nat (- i)) else decimal (nat i))"

definition appendInt :: "int64 \<Rightarrow> Logger \<Rightarrow> Logger" where
  "appendInt i l = l\<lparr>l_buf := l_buf l @ FormatInt (sint i)\<rparr>"

text \<open>
  The methods change the logger and return it for chaining; here each takes the logger
  last and returns the changed one. The methods \<open>Int\<close>, \<open>Str\<close>, \<open>Msg\<close> and \<open>Bytes\<close> carry the prefix
  \<open>Logger_\<close>, since \<open>Int\<close> is taken in HOL. \<open>Msg\<close> returns nothing in the code.
\<close>

definition Logger_Int :: "string \<Rightarrow> int64 \<Rightarrow> Logger \<Rightarrow> Logger" where
  "Logger_Int key val l = appendString '' '' (appendInt val (appendString ''='' (appendString key l)))"

definition Logger_Str :: "string \<Rightarrow> string \<Rightarrow> Logger \<Rightarrow> Logger" where
  "Logger_Str key val l = appendString '' '' (appendString val (appendString ''='' (appendString key l)))"

definition Logger_Msg :: "string \<Rightarrow> Logger \<Rightarrow> Logger" where
  "Logger_Msg msg l = appendString [CHR 0x0A] (appendString msg (appendString ''msg='' l))"

definition Logger_Bytes :: "Logger \<Rightarrow> string" where
  "Logger_Bytes l = l_buf l"

text \<open>The value of a string of decimal digits, to read back what \<open>FormatInt\<close> writes.\<close>

fun digits_value :: "string \<Rightarrow> nat" where
  "digits_value s = foldl (\<lambda>a c. 10 * a + (of_char c - 48)) 0 s"

definition decimal_value :: "string \<Rightarrow> int" where
  "decimal_value s = (case s of
       [] \<Rightarrow> 0
     | c # cs \<Rightarrow> if c = CHR ''-'' then - int (digits_value cs) else int (digits_value s))"

section \<open>Package core: the worker's handlers\<close>

text \<open>
  \<open>float64\<close> arithmetic is not interpreted: the type of the floats is a type variable
  and the operations the handlers use are parameters.
\<close>

record 'f float64_ops =
  f_add :: "'f \<Rightarrow> 'f \<Rightarrow> 'f"        \<comment> \<open>\<open>x + y\<close>\<close>
  f_mul :: "'f \<Rightarrow> 'f \<Rightarrow> 'f"        \<comment> \<open>\<open>x * y\<close>\<close>
  f_of_int :: "int64 \<Rightarrow> 'f"        \<comment> \<open>\<open>float64(i)\<close>\<close>

record 'f OrderResult =
  Total :: 'f
  ProcessedAt :: int64
  Log :: "string option"             \<comment> \<open>\<open>None\<close> is the nil slice\<close>

text \<open>The values of type \<open>any\<close> that the handlers send.\<close>

datatype 'f msg = IntMsg int64 | OrderMsg "'f OrderResult"

text \<open>
  A channel, by its capacity and the values in its buffer. It is shared with the
  submitter; the handler takes it from the task and returns it after the send. A send
  completes at once when the buffer has room. Otherwise the worker is blocked: for ever
  on a nil channel, else until the submitter receives.
\<close>

record 'm chan =
  ch_cap :: nat
  ch_buf :: "'m list"

datatype stop = Panicked panic | Blocked

definition send :: "'m chan option \<Rightarrow> 'm \<Rightarrow> stop + 'm chan" where
  "send c v =
     (case c of
        None \<Rightarrow> Inl Blocked
      | Some ch \<Rightarrow>
          if length (ch_buf ch) < ch_cap ch then Inr (ch\<lparr>ch_buf := ch_buf ch @ [v]\<rparr>)
          else Inl Blocked)"

definition TaskTypeCalc :: int64 where
  "TaskTypeCalc = 0"

definition TaskTypeOrder :: int64 where
  "TaskTypeOrder = 1"

record 'f Task =
  Type :: int64
  Value :: int64
  Price :: 'f
  Quantity :: int64
  Resp :: "'f msg chan option"       \<comment> \<open>\<open>None\<close> is the nil channel\<close>
  LogBuf :: "string option"          \<comment> \<open>\<open>None\<close> is the nil slice\<close>

text \<open>
  The struct \<open>Engine\<close>. The array \<open>UserVolume\<close> of 1024 floats is a function of the
  index; the handlers use the indices 0 and \<open>Value & 1023\<close> only.
\<close>

record 'f Engine =
  Queue :: "'f Task RingBuffer"
  Mem :: Arena
  UserVolume :: "nat \<Rightarrow> 'f"

text \<open>
  An \<open>int\<close> in the arena: the eight bytes of its value, least significant first (the
  order of the 64-bit platforms Go runs on; what is loaded after a store does not depend
  on it).
\<close>

fun le_bytes :: "nat \<Rightarrow> nat \<Rightarrow> byte list" where
  "le_bytes 0 n = []"
| "le_bytes (Suc k) n = of_nat (n mod 256) # le_bytes k (n div 256)"

fun le_value :: "byte list \<Rightarrow> nat" where
  "le_value [] = 0"
| "le_value (b # bs) = unat b + 256 * le_value bs"

definition store_bytes :: "nat \<Rightarrow> byte list \<Rightarrow> byte list \<Rightarrow> byte list" where
  "store_bytes p bs b =
     map (\<lambda>j. if p \<le> j \<and> j < p + length bs then bs ! (j - p) else b ! j) [0 ..< length b]"

definition store_int :: "nat \<Rightarrow> int64 \<Rightarrow> byte list \<Rightarrow> byte list" where
  "store_int p v b = store_bytes p (le_bytes 8 (unat v)) b"

definition load_int :: "nat \<Rightarrow> byte list \<Rightarrow> int64" where
  "load_int p b = of_nat (le_value (take 8 (drop p b)))"

text \<open>
  \<open>Engine.process\<close>. The clock read \<open>sysclock.Now()\<close> is the parameter \<open>now\<close>. An
  \<open>int\<close> has size and alignment 8. A panic of \<open>arena.New\<close> ends the worker. A task
  whose type is neither constant falls through the \<open>switch\<close>. The result is the engine
  and the task's channel after the send; where the send cannot complete, the worker
  waits inside the handler, after the update of the table, and the result is \<open>Blocked\<close>.
\<close>

definition process ::
  "'f float64_ops \<Rightarrow> int64 \<Rightarrow> 'f Engine \<Rightarrow> 'f Task \<Rightarrow> stop + ('f Engine \<times> 'f msg chan option)"
where
  "process F now e t =
     (if Type t = TaskTypeCalc then
        (case arena_New 8 8 (Mem e) of
           (Inl p, m) \<Rightarrow> Inl (Panicked p)
         | (Inr tempPtr, m) \<Rightarrow>
             let m' = m\<lparr>a_buf := store_int (nat tempPtr) (Value t * 2) (a_buf m)\<rparr>;
                 e' = e\<lparr>Mem := m',
                        UserVolume := (UserVolume e)
                          (0 := f_add F (UserVolume e 0)
                                  (f_of_int F (load_int (nat tempPtr) (a_buf m'))))\<rparr>
             in case send (Resp t) (IntMsg (load_int (nat tempPtr) (a_buf m'))) of
                  Inl s \<Rightarrow> Inl s
                | Inr ch \<Rightarrow> Inr (e', Some ch))
      else if Type t = TaskTypeOrder then
        (let ts = now;
             total = f_mul F (Price t) (f_of_int F (Quantity t));
             userID = Value t AND 1023;
             e' = e\<lparr>UserVolume := (UserVolume e)
                      (unat userID := f_add F (UserVolume e (unat userID)) total)\<rparr>;
             logBytes =
               (case LogBuf t of
                  None \<Rightarrow> None
                | Some buf \<Rightarrow>
                    Some (Logger_Bytes (Logger_Msg ''processed'' (Logger_Int ''uid'' userID
                            (Logger_Str ''type'' ''order'' (Logger_Int ''ts'' ts (Wrap buf)))))))
         in case send (Resp t) (OrderMsg \<lparr>Total = total, ProcessedAt = ts, Log = logBytes\<rparr>) of
              Inl s \<Rightarrow> Inl s
            | Inr ch \<Rightarrow> Inr (e', Some ch))
      else Inr (e, Resp t))"

text \<open>What a call of \<open>process\<close> has left in the buffer of the task's channel.\<close>

definition delivered :: "stop + ('f Engine \<times> 'f msg chan option) \<Rightarrow> 'f msg list" where
  "delivered r = (case r of Inr (e, Some ch) \<Rightarrow> ch_buf ch | _ \<Rightarrow> [])"

text \<open>
  Sample values: integers in the place of the floats, an engine with an arena of 16
  stale bytes and an empty table, and a fresh channel of capacity one.
\<close>

definition int_ops :: "int float64_ops" where
  "int_ops = \<lparr>f_add = (+), f_mul = (*), f_of_int = sint\<rparr>"

definition engine0 :: "int Engine" where
  "engine0 = \<lparr>Queue = \<lparr>rb_buffer = [], rb_size = 0, rb_mask = - 1, rb_head = 0, rb_tail = 0\<rparr>,
              Mem = \<lparr>a_buf = [1, 2, 3, 4, 5, 6, 7, 8, 9, 10, 11, 12, 13, 14, 15, 16], a_offset = 0\<rparr>,
              UserVolume = (\<lambda>i. 0)\<rparr>"

definition chan1 :: "int msg chan" where
  "chan1 = \<lparr>ch_cap = 1, ch_buf = []\<rparr>"

section \<open>Powers of two and masks\<close>

lemma pow2_nat: "(n::nat) AND (n - 1) = 0 \<Longrightarrow> n = 0 \<or> (\<exists>k. n = 2 ^ k)"
proof (induction n rule: less_induct)
  case (less n)
  show ?case
  proof (cases "n = 0")
    case True
    then show ?thesis by simp
  next
    case nz: False
    show ?thesis
    proof (cases "even n")
      case True
      then obtain m where m: "n = 2 * m" by (auto elim: evenE)
      with nz have mpos: "0 < m" by simp
      have d: "(n - 1) div 2 = m - 1" using m mpos by (cases m) auto
      have "n AND (n - 1) = 2 * (m AND (m - 1))"
        using m d by (subst and_nat_rec) simp
      with less.prems have "m AND (m - 1) = 0" by simp
      moreover have "m < n" using m mpos by simp
      ultimately have "m = 0 \<or> (\<exists>k. m = 2 ^ k)" using less.IH by blast
      with mpos obtain k where "m = 2 ^ k" by auto
      then have "n = 2 ^ Suc k" using m by simp
      then show ?thesis by blast
    next
      case False
      then have e: "even (n - 1)" by simp
      have d: "(n - 1) div 2 = n div 2" using False by presburger
      have "n AND (n - 1) = 2 * (n div 2)"
        using e d by (subst and_nat_rec) simp
      with less.prems have "n div 2 = 0" by simp
      with False have "n = 1" by presburger
      then have "n = 2 ^ 0" by simp
      then show ?thesis by blast
    qed
  qed
qed

lemma pow2_word:
  fixes w :: uint64
  assumes "w AND (w - 1) = 0"
  shows "w = 0 \<or> (\<exists>k<64. w = 2 ^ k)"
proof (cases "w = 0")
  case True
  then show ?thesis by simp
next
  case False
  have "unat (w AND (w - 1)) = unat w AND (unat w - 1)"
    using False by (simp add: unsigned_and_eq unat_minus_one)
  with assms have "unat w AND (unat w - 1) = 0" by simp
  then obtain k where k: "unat w = 2 ^ k" using pow2_nat False by (metis unat_eq_0)
  have "k < 64"
  proof -
    have "unat w < 2 ^ LENGTH(64)" by (rule unsigned_less)
    then have "(2::nat) ^ k < 2 ^ LENGTH(64)" unfolding k .
    then have "k < LENGTH(64)" by (rule power_less_imp_less_exp [rotated]) simp
    then show ?thesis by simp
  qed
  moreover have "w = 2 ^ k"
  proof -
    have "w = word_of_nat (unat w)" by simp
    then show ?thesis unfolding k by simp
  qed
  ultimately show ?thesis by blast
qed

lemma pow2_and: "k < 64 \<Longrightarrow> (2 ^ k :: uint64) AND (2 ^ k - 1) = 0"
  by (simp flip: mask_eq_exp_minus_1 take_bit_eq_mask add: take_bit_eq_0_iff)

lemma unat_and_pow2_mask:
  fixes x :: uint64
  assumes "k < 64"
  shows "unat (x AND (2 ^ k - 1)) = unat x mod 2 ^ k"
  by (simp flip: mask_eq_exp_minus_1 take_bit_eq_mask add: unsigned_take_bit_eq take_bit_nat_def)

lemma mod_add_inj:
  fixes a :: nat
  assumes "(a + i) mod n = (a + j) mod n" "i < n" "j < n"
  shows "i = j"
proof -
  have *: "i = j" if "i \<le> j" "(a + i) mod n = (a + j) mod n" "j < n" for i j
  proof -
    have "n dvd (a + j) - (a + i)" using that by (metis mod_eq_dvd_iff_nat add_le_cancel_left)
    then have "n dvd j - i" by simp
    moreover have "j - i < n" using that by simp
    ultimately have "j - i = 0" by (meson dvd_imp_le not_less zero_less_iff_neq_zero)
    with that show ?thesis by simp
  qed
  show ?thesis
  proof (cases "i \<le> j")
    case True then show ?thesis using * assms by blast
  next
    case False then show ?thesis using * [of j i] assms by simp
  qed
qed

lemma slot_nat:
  fixes t :: uint64
  assumes "k < 64"
  shows "unat ((t + of_nat i) AND (2 ^ k - 1)) = (unat t + i) mod 2 ^ k"
proof -
  define M :: nat where "M = 2 ^ 64"
  have d: "(2::nat) ^ k dvd M"
    unfolding M_def by (rule le_imp_power_dvd) (use assms in simp)
  have "unat (t + of_nat i) = (unat t + i) mod M"
    by (simp add: M_def unat_word_ariths unat_of_nat mod_add_right_eq)
  then have "unat (t + of_nat i) mod 2 ^ k = (unat t + i) mod 2 ^ k"
    using d by (simp only: mod_mod_cancel)
  then show ?thesis by (simp only: unat_and_pow2_mask [OF assms])
qed

lemma unat_pow2:
  assumes "k < 64"
  shows "unat (2 ^ k :: uint64) = 2 ^ k"
proof -
  define M :: nat where "M = 2 ^ LENGTH(64)"
  have "(2::nat) ^ k < M"
    unfolding M_def by (rule power_strict_increasing) (use assms in simp_all)
  moreover have "unat (word_of_nat (2 ^ k) :: uint64) = 2 ^ k mod M"
    unfolding M_def by (rule unat_of_nat)
  ultimately show ?thesis by simp
qed

section \<open>The queue: single steps preserve the invariant\<close>

lemma New_inv:
  assumes "fastqueue_New maxlen zero n = Inr rb"
  shows "rb_inv rb \<and> rb_size rb = n \<and> rb_head rb = 0 \<and> rb_tail rb = 0
         \<and> rb_buffer rb = replicate (unat n) zero"
  using assms by (auto simp: fastqueue_New_def rb_inv_def split: if_splits)

lemma index_in_range:
  assumes "rb_inv rb" "rb_size rb \<noteq> 0"
  shows "unat (x AND rb_mask rb) < length (rb_buffer rb)"
proof -
  from assms obtain k where k: "k < 64" "rb_size rb = 2 ^ k"
    using pow2_word [of "rb_size rb"] by (auto simp: rb_inv_def)
  have "unat (x AND rb_mask rb) = unat x mod 2 ^ k"
    using assms k unat_and_pow2_mask [of k x] by (simp add: rb_inv_def)
  moreover have "unat (rb_size rb) = 2 ^ k" using k by (simp add: unat_pow2)
  ultimately show ?thesis using assms by (simp add: rb_inv_def)
qed

lemma unat_succ_less:
  fixes a b :: uint64
  assumes "a < b"
  shows "unat (a + 1) = Suc (unat a)"
proof -
  have "unat a < unat b" using assms by (simp add: word_less_nat_alt)
  moreover have "unat b < 2 ^ LENGTH(64)" by (rule unsigned_less)
  ultimately have "unat a + unat (1::uint64) < 2 ^ LENGTH(64)" by simp
  then have "unat (a + 1) = unat a + unat (1::uint64)" by (rule unat_add_lem [THEN iffD1])
  then show ?thesis by simp
qed

lemma contents_slots:
  assumes "rb_inv rb" "rb_size rb = 2 ^ k" "k < 64"
  shows "contents rb =
           map (\<lambda>i. rb_buffer rb ! ((unat (rb_tail rb) + i) mod 2 ^ k))
             [0 ..< unat (rb_head rb - rb_tail rb)]"
  using assms slot_nat [of k] by (simp add: contents_def rb_inv_def)

lemma Push_step:
  assumes inv: "rb_inv rb"
  shows "\<exists>ok rb'. Push x rb = Inr (ok, rb') \<and> rb_inv rb' \<and> rb_size rb' = rb_size rb
           \<and> rb_tail rb' = rb_tail rb
           \<and> (ok \<longleftrightarrow> rb_head rb - rb_tail rb \<noteq> rb_size rb)
           \<and> (if ok then rb_head rb' = rb_head rb + 1 \<and> contents rb' = contents rb @ [x]
               else rb' = rb)"
proof (cases "rb_size rb \<le> rb_head rb - rb_tail rb")
  case True
  moreover have "rb_head rb - rb_tail rb \<le> rb_size rb" using inv by (simp add: rb_inv_def)
  ultimately have "rb_head rb - rb_tail rb = rb_size rb" by simp
  then show ?thesis using inv by (auto simp: Push_def)
next
  case False
  then have lt: "rb_head rb - rb_tail rb < rb_size rb" by simp
  then have nz: "rb_size rb \<noteq> 0" by auto
  then obtain k where k: "k < 64" "rb_size rb = 2 ^ k"
    using inv pow2_word [of "rb_size rb"] by (auto simp: rb_inv_def)
  define d where "d = unat (rb_head rb - rb_tail rb)"
  define j where "j = unat (rb_head rb AND rb_mask rb)"
  define rb' where "rb' = rb\<lparr>rb_buffer := (rb_buffer rb)[j := x], rb_head := rb_head rb + 1\<rparr>"
  have len: "length (rb_buffer rb) = 2 ^ k" using inv k by (simp add: rb_inv_def unat_pow2)
  have dlt: "d < 2 ^ k" using lt k by (simp add: d_def word_less_nat_alt unat_pow2)
  have jlt: "j < length (rb_buffer rb)" unfolding j_def using inv nz by (rule index_in_range)
  have push: "Push x rb = Inr (True, rb')"
    using False jlt by (simp add: Push_def Let_def j_def rb'_def)
  have hd: "rb_head rb = rb_tail rb + of_nat d" by (simp add: d_def)
  have mask: "rb_mask rb = 2 ^ k - 1" using inv k by (simp add: rb_inv_def)
  have j: "j = (unat (rb_tail rb) + d) mod 2 ^ k"
    unfolding j_def mask by (subst hd) (rule slot_nat [OF k(1)])
  have d': "unat (rb_head rb' - rb_tail rb') = Suc d"
  proof -
    have "rb_head rb' - rb_tail rb' = (rb_head rb - rb_tail rb) + 1" by (simp add: rb'_def)
    then show ?thesis using unat_succ_less [OF lt] by (simp add: d_def)
  qed
  have inv': "rb_inv rb'"
    using inv d' dlt k by (simp add: rb_inv_def rb'_def word_le_nat_alt unat_pow2 d_def)
  have old: "rb_buffer rb' ! ((unat (rb_tail rb) + i) mod 2 ^ k)
               = rb_buffer rb ! ((unat (rb_tail rb) + i) mod 2 ^ k)" if "i < d" for i
  proof -
    have "(unat (rb_tail rb) + i) mod 2 ^ k \<noteq> j"
      using mod_add_inj [of "unat (rb_tail rb)" i "2 ^ k" d] that dlt j by auto
    then show ?thesis by (simp add: rb'_def)
  qed
  have new: "rb_buffer rb' ! ((unat (rb_tail rb) + d) mod 2 ^ k) = x"
    using jlt j by (simp add: rb'_def)
  have "contents rb' =
          map (\<lambda>i. rb_buffer rb' ! ((unat (rb_tail rb) + i) mod 2 ^ k)) [0 ..< Suc d]"
    using contents_slots [OF inv', of k] k d' by (simp add: rb'_def)
  also have "\<dots> = map (\<lambda>i. rb_buffer rb ! ((unat (rb_tail rb) + i) mod 2 ^ k)) [0 ..< d] @ [x]"
    using old new by simp
  also have "\<dots> = contents rb @ [x]"
    using contents_slots [OF inv k(2,1)] by (simp add: d_def)
  finally have "contents rb' = contents rb @ [x]" .
  then show ?thesis using push inv' lt by (auto simp: rb'_def)
qed

lemma Pop_step:
  assumes inv: "rb_inv rb"
  shows "\<exists>x ok rb'. Pop zero rb = Inr ((x, ok), rb') \<and> rb_inv rb' \<and> rb_size rb' = rb_size rb
           \<and> rb_head rb' = rb_head rb
           \<and> (ok \<longleftrightarrow> rb_tail rb < rb_head rb)
           \<and> (if ok then rb_tail rb' = rb_tail rb + 1 \<and> contents rb = x # contents rb'
               else rb' = rb \<and> x = zero)"
proof (cases "rb_head rb \<le> rb_tail rb")
  case True
  then show ?thesis using inv by (auto simp: Pop_def)
next
  case False
  then have lt: "rb_tail rb < rb_head rb" by simp
  then have dnz: "rb_head rb - rb_tail rb \<noteq> 0" by auto
  have le: "rb_head rb - rb_tail rb \<le> rb_size rb" using inv by (simp add: rb_inv_def)
  with dnz have nz: "rb_size rb \<noteq> 0" by auto
  define j where "j = unat (rb_tail rb AND rb_mask rb)"
  define rb' where "rb' = rb\<lparr>rb_tail := rb_tail rb + 1\<rparr>"
  define d where "d = unat (rb_head rb - rb_tail rb)"
  have jlt: "j < length (rb_buffer rb)" unfolding j_def using inv nz by (rule index_in_range)
  have pop: "Pop zero rb = Inr ((rb_buffer rb ! j, True), rb')"
    using False jlt by (simp add: Pop_def Let_def j_def rb'_def)
  have d': "unat (rb_head rb' - rb_tail rb') = d - 1"
  proof -
    have "rb_head rb' - rb_tail rb' = (rb_head rb - rb_tail rb) - 1" by (simp add: rb'_def)
    then show ?thesis using dnz by (simp add: unat_minus_one d_def)
  qed
  have dpos: "0 < d" using dnz by (simp add: d_def unat_gt_0)
  have inv': "rb_inv rb'"
    using inv d' le by (auto simp: rb_inv_def rb'_def word_le_nat_alt d_def)
  have "contents rb =
          map (\<lambda>i. rb_buffer rb ! unat ((rb_tail rb + of_nat i) AND rb_mask rb)) [0 ..< Suc (d - 1)]"
    using dpos by (simp add: contents_def d_def)
  also have "\<dots> = rb_buffer rb ! j #
      map (\<lambda>i. rb_buffer rb ! unat ((rb_tail rb + 1 + of_nat i) AND rb_mask rb)) [0 ..< d - 1]"
    by (simp only: map_upt_Suc) (simp add: j_def ac_simps)
  also have "\<dots> = rb_buffer rb ! j # contents rb'"
    using d' by (simp add: contents_def rb'_def)
  finally have "contents rb = rb_buffer rb ! j # contents rb'" .
  then show ?thesis using pop inv' lt by (auto simp: rb'_def)
qed

section \<open>The queue: sequential runs\<close>

lemma run_inv:
  assumes "rb_inv rb"
  shows "\<exists>rs rb'. run zero cs rb = Inr (rs, rb') \<and> rb_inv rb' \<and> rb_size rb' = rb_size rb
           \<and> contents rb @ pushed rs = popped rs @ contents rb'
           \<and> rb_head rb' = rb_head rb + of_nat (length (pushed rs))
           \<and> rb_tail rb' = rb_tail rb + of_nat (length (popped rs))"
  using assms
proof (induction cs arbitrary: rb)
  case Nil
  then show ?case by simp
next
  case (Cons c cs)
  show ?case
  proof (cases c)
    case (CallPush x)
    from Push_step [OF Cons.prems, of x] obtain ok rb1 where
      p: "Push x rb = Inr (ok, rb1)" "rb_inv rb1" "rb_size rb1 = rb_size rb"
         "rb_tail rb1 = rb_tail rb"
         "if ok then rb_head rb1 = rb_head rb + 1 \<and> contents rb1 = contents rb @ [x]
          else rb1 = rb"
      by blast
    from Cons.IH [OF p(2)] obtain rs rb' where
      r: "run zero cs rb1 = Inr (rs, rb')" "rb_inv rb'" "rb_size rb' = rb_size rb1"
         "contents rb1 @ pushed rs = popped rs @ contents rb'"
         "rb_head rb' = rb_head rb1 + of_nat (length (pushed rs))"
         "rb_tail rb' = rb_tail rb1 + of_nat (length (popped rs))"
      by blast
    show ?thesis using p r CallPush by (cases ok) auto
  next
    case CallPop
    from Pop_step [OF Cons.prems, of zero] obtain x ok rb1 where
      p: "Pop zero rb = Inr ((x, ok), rb1)" "rb_inv rb1" "rb_size rb1 = rb_size rb"
         "rb_head rb1 = rb_head rb"
         "if ok then rb_tail rb1 = rb_tail rb + 1 \<and> contents rb = x # contents rb1
          else rb1 = rb \<and> x = zero"
      by blast
    from Cons.IH [OF p(2)] obtain rs rb' where
      r: "run zero cs rb1 = Inr (rs, rb')" "rb_inv rb'" "rb_size rb' = rb_size rb1"
         "contents rb1 @ pushed rs = popped rs @ contents rb'"
         "rb_head rb' = rb_head rb1 + of_nat (length (pushed rs))"
         "rb_tail rb' = rb_tail rb1 + of_nat (length (popped rs))"
      by blast
    show ?thesis using p r CallPop by (cases ok) auto
  qed
qed

lemma contents_empty: "rb_head rb = rb_tail rb \<Longrightarrow> contents rb = []"
  by (simp add: contents_def)

lemma length_contents: "length (contents rb) = unat (rb_head rb - rb_tail rb)"
  by (simp add: contents_def)

section \<open>The queue: a run that wraps the indices\<close>

lemma run_append:
  "run zero (cs @ ds) rb =
     (case run zero cs rb of
        Inl p \<Rightarrow> Inl p
      | Inr (rs, rb') \<Rightarrow>
          (case run zero ds rb' of
             Inl p \<Rightarrow> Inl p
           | Inr (rs', rb'') \<Rightarrow> Inr (rs @ rs', rb'')))"
  by (induction zero cs rb rule: run.induct) (auto split: sum.splits prod.splits)

lemma not_succ_le:
  fixes h :: uint64
  assumes "unat h + 1 < 2 ^ 64"
  shows "\<not> h + 1 \<le> h"
proof -
  have "unat h + unat (1::uint64) < 2 ^ LENGTH(64)" using assms by simp
  then have "unat (h + 1) = unat h + unat (1::uint64)" by (rule unat_add_lem [THEN iffD1])
  then show ?thesis by (simp add: word_le_nat_alt)
qed

lemma run_cycles:
  "unat h + n < 2 ^ 64 \<Longrightarrow>
   run 0 (cycles n) (q_at h h) = Inr (cycle_results n, q_at (h + of_nat n) (h + of_nat n))"
proof (induction n arbitrary: h)
  case 0
  then show ?case by (simp add: cycles_def cycle_results_def)
next
  case (Suc n)
  have a: "unat h + 1 < 2 ^ 64" using Suc.prems by simp
  have push: "Push 0 (q_at h h) = Inr (True, q_at (h + 1) h)"
    by (simp add: Push_def q_at_def)
  have pop: "Pop 0 (q_at (h + 1) h) = Inr ((0, True), q_at (h + 1) (h + 1))"
    using not_succ_le [OF a] by (simp add: Pop_def q_at_def)
  have "unat h + unat (1::uint64) < 2 ^ LENGTH(64)" using a by simp
  then have "unat (h + 1) = unat h + unat (1::uint64)" by (rule unat_add_lem [THEN iffD1])
  then have "unat (h + 1) + n < 2 ^ 64" using Suc.prems by simp
  from Suc.IH [OF this] show ?case
    using push pop by (simp add: cycles_def cycle_results_def ac_simps)
qed

lemma max_uint64: "(18446744073709551615 :: uint64) = - 1"
  by (simp add: word_eq_iff_unsigned [where ?'a = nat] unsigned_minus_1_eq_mask mask_eq_exp_minus_1)

lemma run_wrap_calls: "run 0 wrap_calls (q_at 0 0) = Inr (wrap_results, q_at 0 (- 1))"
proof -
  have "run 0 (cycles (2 ^ 64 - 1)) (q_at 0 0) = Inr (cycle_results (2 ^ 64 - 1), q_at (- 1) (- 1))"
    using run_cycles [of 0 "2 ^ 64 - 1"] by (simp add: max_uint64)
  moreover have "Push 0 (q_at (- 1) (- 1)) = Inr (True, q_at 0 (- 1))"
    by (simp add: Push_def q_at_def)
  ultimately show ?thesis
    by (simp add: wrap_calls_def wrap_results_def run_append)
qed

lemma New_q: "fastqueue_New 1 (0::nat) 1 = Inr (q_at 0 0)"
  by (simp add: fastqueue_New_def q_at_def)

lemma length_pushed_cycle_results: "length (pushed (cycle_results n)) = n"
  by (induction n) (simp_all add: cycle_results_def)

section \<open>The queue: the claims\<close>

lemma replicate_2: "replicate 2 x = [x, x]"
  by (simp add: numeral_2_eq_2)

lemma run_from_New:
  assumes "fastqueue_New maxlen zero n = Inr q0"
  shows "\<exists>rs q. run zero cs q0 = Inr (rs, q) \<and> rb_inv q \<and> rb_size q = n
           \<and> pushed rs = popped rs @ contents q
           \<and> rb_head q = of_nat (length (pushed rs))
           \<and> rb_tail q = of_nat (length (popped rs))"
proof -
  from New_inv [OF assms] have inv: "rb_inv q0" and e: "contents q0 = []"
    and z: "rb_size q0 = n" "rb_head q0 = 0" "rb_tail q0 = 0"
    by (simp_all add: contents_empty)
  from run_inv [OF inv, of zero cs] e z show ?thesis by auto
qed

lemma tail_le_head_unwrapped:
  fixes h t :: uint64
  assumes "h = of_nat np" "t = of_nat nq" "nq \<le> np" "np < 2 ^ 64"
  shows "t \<le> h"
proof -
  have "unat h = np" "unat t = nq" using assms by (simp_all add: unat_of_nat)
  then show ?thesis using assms by (simp add: word_le_nat_alt)
qed

text \<open>
  Calls that do not overlap. For every sequence of whole Push and Pop calls on a queue
  that \<open>New\<close> returned, no call panics, and the items popped with success are a prefix
  of the items pushed with success; what remains of the pushed items is what the queue
  stores, oldest first.
\<close>

theorem fifo_prefix:
  assumes "fastqueue_New maxlen zero n = Inr q0"
  shows "\<exists>rs q. run zero cs q0 = Inr (rs, q)
           \<and> pushed rs = popped rs @ contents q
           \<and> length (contents q) = unat (rb_head q - rb_tail q)"
proof -
  from New_inv [OF assms] have inv: "rb_inv q0" and e: "contents q0 = []"
    by (simp_all add: contents_empty)
  from run_inv [OF inv, of zero cs] e show ?thesis
    by (auto simp: length_contents)
qed

text \<open>A run on a queue of capacity 2 that meets a full queue on the way.\<close>

theorem fifo_prefix_witness:
  "fastqueue_New 8 (0::nat) 2 = Inr \<lparr>rb_buffer = [0, 0], rb_size = 2, rb_mask = 1, rb_head = 0, rb_tail = 0\<rparr>
   \<and> run (0::nat) [CallPush 5, CallPush 6, CallPush 7, CallPop, CallPush 8, CallPop]
         \<lparr>rb_buffer = [0, 0], rb_size = 2, rb_mask = 1, rb_head = 0, rb_tail = 0\<rparr>
       = Inr ([Pushed 5 True, Pushed 6 True, Pushed 7 False, Popped 5 True, Pushed 8 True,
               Popped 6 True],
              \<lparr>rb_buffer = [8, 6], rb_size = 2, rb_mask = 1, rb_head = 3, rb_tail = 2\<rparr>)
   \<and> [5, 6, 8] = [5, 6] @ contents \<lparr>rb_buffer = [8, 6::nat], rb_size = 2, rb_mask = 1, rb_head = 3, rb_tail = 2\<rparr>"
proof -
  let ?cs = "[CallPush 5, CallPush 6, CallPush 7, CallPop, CallPush 8, CallPop] :: nat call list"
  let ?q0 = "\<lparr>rb_buffer = [0, 0::nat], rb_size = 2, rb_mask = 1, rb_head = 0, rb_tail = 0\<rparr>"
  have h: "fastqueue_New 8 (0::nat) 2 = Inr ?q0"
    by (simp add: fastqueue_New_def replicate_2)
  have r: "run 0 ?cs ?q0
      = Inr ([Pushed 5 True, Pushed 6 True, Pushed 7 False, Popped 5 True, Pushed 8 True,
               Popped 6 True],
              \<lparr>rb_buffer = [8, 6], rb_size = 2, rb_mask = 1, rb_head = 3, rb_tail = 2\<rparr>)"
    by (simp add: Push_def Pop_def word_le_nat_alt)
  from fifo_prefix [OF h, of ?cs] r
  have "[5, 6, 8] = [5, 6] @ contents \<lparr>rb_buffer = [8, 6::nat], rb_size = 2, rb_mask = 1, rb_head = 3, rb_tail = 2\<rparr>"
    by simp
  with h r show ?thesis by simp
qed

text \<open>
  The failures of \<open>Push\<close> and \<open>Pop\<close> in the states that sequential use reaches from a
  queue that \<open>New\<close> returned with capacity \<open>n\<close>: \<open>Push\<close> returns false exactly when
  \<open>head - tail = n\<close>, and a failed \<open>Push\<close> leaves the queue unchanged; \<open>Pop\<close> takes the
  branch of its test \<open>tail >= head\<close>, a failed \<open>Pop\<close> leaves the queue unchanged, and
  as long as fewer than \<open>2^64\<close> pushes have succeeded \<open>Pop\<close> fails exactly when
  \<open>head = tail\<close>.
\<close>

theorem push_pop_failure:
  assumes "fastqueue_New maxlen zero n = Inr q0"
  shows "\<exists>rs q. run zero cs q0 = Inr (rs, q) \<and> rb_size q = n
           \<and> (\<exists>ok q'. Push x q = Inr (ok, q')
                 \<and> (\<not> ok \<longleftrightarrow> rb_head q - rb_tail q = n) \<and> (\<not> ok \<longrightarrow> q' = q))
           \<and> (\<exists>y ok q'. Pop zero q = Inr ((y, ok), q')
                 \<and> (\<not> ok \<longleftrightarrow> rb_head q \<le> rb_tail q) \<and> (\<not> ok \<longrightarrow> q' = q)
                 \<and> (length (pushed rs) < 2 ^ 64 \<longrightarrow> (\<not> ok \<longleftrightarrow> rb_head q = rb_tail q)))"
proof -
  from run_from_New [OF assms, of cs] obtain rs q where
    r: "run zero cs q0 = Inr (rs, q)" "rb_inv q" "rb_size q = n"
       "pushed rs = popped rs @ contents q"
       "rb_head q = of_nat (length (pushed rs))" "rb_tail q = of_nat (length (popped rs))"
    by blast
  have le: "length (popped rs) \<le> length (pushed rs)" by (subst r(4)) simp
  from Push_step [OF r(2), of x] obtain ok q' where
    p: "Push x q = Inr (ok, q')" "ok \<longleftrightarrow> rb_head q - rb_tail q \<noteq> rb_size q"
       "if ok then rb_head q' = rb_head q + 1 \<and> contents q' = contents q @ [x] else q' = q"
    by blast
  have p2: "\<not> ok \<longleftrightarrow> rb_head q - rb_tail q = n" using p(2) r(3) by simp
  have p3: "\<not> ok \<longrightarrow> q' = q" using p(3) by simp
  have push: "\<exists>ok q'. Push x q = Inr (ok, q')
                 \<and> (\<not> ok \<longleftrightarrow> rb_head q - rb_tail q = n) \<and> (\<not> ok \<longrightarrow> q' = q)"
    by (intro exI conjI) (rule p(1) p2 p3)+
  from Pop_step [OF r(2), of zero] obtain y ok1 q1 where
    o: "Pop zero q = Inr ((y, ok1), q1)" "ok1 \<longleftrightarrow> rb_tail q < rb_head q"
       "if ok1 then rb_tail q1 = rb_tail q + 1 \<and> contents q = y # contents q1
        else q1 = q \<and> y = zero"
    by blast
  have o2: "\<not> ok1 \<longleftrightarrow> rb_head q \<le> rb_tail q" using o(2) by auto
  have o3: "\<not> ok1 \<longrightarrow> q1 = q" using o(3) by simp
  have o4: "length (pushed rs) < 2 ^ 64 \<longrightarrow> (\<not> ok1 \<longleftrightarrow> rb_head q = rb_tail q)"
  proof
    assume "length (pushed rs) < 2 ^ 64"
    then have "rb_tail q \<le> rb_head q" by (rule tail_le_head_unwrapped [OF r(5,6) le])
    then show "\<not> ok1 \<longleftrightarrow> rb_head q = rb_tail q" using o2 by auto
  qed
  have pop: "\<exists>y ok q'. Pop zero q = Inr ((y, ok), q')
                 \<and> (\<not> ok \<longleftrightarrow> rb_head q \<le> rb_tail q) \<and> (\<not> ok \<longrightarrow> q' = q)
                 \<and> (length (pushed rs) < 2 ^ 64 \<longrightarrow> (\<not> ok \<longleftrightarrow> rb_head q = rb_tail q))"
    by (intro exI conjI) (rule o(1) o2 o3 o4)+
  have "run zero cs q0 = Inr (rs, q) \<and> rb_size q = n
           \<and> (\<exists>ok q'. Push x q = Inr (ok, q')
                 \<and> (\<not> ok \<longleftrightarrow> rb_head q - rb_tail q = n) \<and> (\<not> ok \<longrightarrow> q' = q))
           \<and> (\<exists>y ok q'. Pop zero q = Inr ((y, ok), q')
                 \<and> (\<not> ok \<longleftrightarrow> rb_head q \<le> rb_tail q) \<and> (\<not> ok \<longrightarrow> q' = q)
                 \<and> (length (pushed rs) < 2 ^ 64 \<longrightarrow> (\<not> ok \<longleftrightarrow> rb_head q = rb_tail q)))"
    by (rule conjI [OF r(1) conjI [OF r(3) conjI [OF push pop]]])
  then show ?thesis by (intro exI)
qed

text \<open>The empty queue, where \<open>Pop\<close> fails, and the full queue, where \<open>Push\<close> fails.\<close>

theorem push_pop_failure_witness:
  "fastqueue_New 8 (0::nat) 2
     = Inr \<lparr>rb_buffer = [0, 0], rb_size = 2, rb_mask = 1, rb_head = 0, rb_tail = 0\<rparr>
   \<and> Pop 0 \<lparr>rb_buffer = [0, 0::nat], rb_size = 2, rb_mask = 1, rb_head = 0, rb_tail = 0\<rparr>
       = Inr ((0, False), \<lparr>rb_buffer = [0, 0], rb_size = 2, rb_mask = 1, rb_head = 0, rb_tail = 0\<rparr>)
   \<and> run (0::nat) [CallPush 5, CallPush 6]
         \<lparr>rb_buffer = [0, 0], rb_size = 2, rb_mask = 1, rb_head = 0, rb_tail = 0\<rparr>
       = Inr ([Pushed 5 True, Pushed 6 True],
              \<lparr>rb_buffer = [5, 6], rb_size = 2, rb_mask = 1, rb_head = 2, rb_tail = 0\<rparr>)
   \<and> Push 7 \<lparr>rb_buffer = [5, 6::nat], rb_size = 2, rb_mask = 1, rb_head = 2, rb_tail = 0\<rparr>
       = Inr (False, \<lparr>rb_buffer = [5, 6], rb_size = 2, rb_mask = 1, rb_head = 2, rb_tail = 0\<rparr>)
   \<and> (2 :: uint64) - 0 = 2
   \<and> length (pushed [Pushed (5::nat) True, Pushed 6 True]) < 2 ^ 64"
proof -
  let ?q0 = "\<lparr>rb_buffer = [0, 0::nat], rb_size = 2, rb_mask = 1, rb_head = 0, rb_tail = 0\<rparr>"
  let ?qf = "\<lparr>rb_buffer = [5, 6::nat], rb_size = 2, rb_mask = 1, rb_head = 2, rb_tail = 0\<rparr>"
  have h: "fastqueue_New 8 (0::nat) 2 = Inr ?q0"
    by (simp add: fastqueue_New_def replicate_2)
  have r: "run 0 [CallPush 5, CallPush 6] ?q0 = Inr ([Pushed 5 True, Pushed 6 True], ?qf)"
    by (simp add: Push_def Pop_def word_le_nat_alt)
  have e: "Pop 0 ?q0 = Inr ((0, False), ?q0)"
    using push_pop_failure [OF h, of "[]" 7] by (simp add: Pop_def)
  have f: "Push 7 ?qf = Inr (False, ?qf)"
    using push_pop_failure [OF h, of "[CallPush 5, CallPush 6]" 7] r by (simp add: Push_def)
  from h r e f show ?thesis by simp
qed

text \<open>
  Claim C8, as amended. Starting from a queue that \<open>New\<close> returned with capacity \<open>n\<close>,
  after every sequence of Push and Pop calls \<open>head - tail \<le> n\<close> holds (the difference
  taken in 64-bit arithmetic, as the code takes it), and \<open>tail \<le> head\<close> holds as long as
  fewer than \<open>2^64\<close> pushes have succeeded.
\<close>

theorem index_invariant:
  assumes "fastqueue_New maxlen zero n = Inr q0"
  shows "\<exists>rs q. run zero cs q0 = Inr (rs, q) \<and> rb_size q = n
           \<and> rb_head q - rb_tail q \<le> n
           \<and> (length (pushed rs) < 2 ^ 64 \<longrightarrow> rb_tail q \<le> rb_head q)"
proof -
  from run_from_New [OF assms, of cs] obtain rs q where
    r: "run zero cs q0 = Inr (rs, q)" "rb_inv q" "rb_size q = n"
       "pushed rs = popped rs @ contents q"
       "rb_head q = of_nat (length (pushed rs))" "rb_tail q = of_nat (length (popped rs))"
    by blast
  have le: "length (popped rs) \<le> length (pushed rs)" by (subst r(4)) simp
  have t: "length (pushed rs) < 2 ^ 64 \<longrightarrow> rb_tail q \<le> rb_head q"
    by (rule impI) (rule tail_le_head_unwrapped [OF r(5,6) le])
  have d: "rb_head q - rb_tail q \<le> n" using r(2,3) by (simp add: rb_inv_def)
  show ?thesis by (intro exI conjI) (rule r(1) r(3) d t)+
qed

text \<open>A run on a queue of capacity 2.\<close>

theorem index_invariant_witness:
  "fastqueue_New 8 (0::nat) 2
     = Inr \<lparr>rb_buffer = [0, 0], rb_size = 2, rb_mask = 1, rb_head = 0, rb_tail = 0\<rparr>
   \<and> run (0::nat) [CallPush 5, CallPush 6, CallPush 7, CallPop]
         \<lparr>rb_buffer = [0, 0], rb_size = 2, rb_mask = 1, rb_head = 0, rb_tail = 0\<rparr>
       = Inr ([Pushed 5 True, Pushed 6 True, Pushed 7 False, Popped 5 True],
              \<lparr>rb_buffer = [5, 6], rb_size = 2, rb_mask = 1, rb_head = 2, rb_tail = 1\<rparr>)
   \<and> (2 :: uint64) - 1 \<le> 2
   \<and> length (pushed [Pushed (5::nat) True, Pushed 6 True, Pushed 7 False, Popped 5 True]) < 2 ^ 64
   \<and> (1 :: uint64) \<le> 2"
proof -
  let ?cs = "[CallPush 5, CallPush 6, CallPush 7, CallPop] :: nat call list"
  let ?q0 = "\<lparr>rb_buffer = [0, 0::nat], rb_size = 2, rb_mask = 1, rb_head = 0, rb_tail = 0\<rparr>"
  have h: "fastqueue_New 8 (0::nat) 2 = Inr ?q0"
    by (simp add: fastqueue_New_def replicate_2)
  have r: "run 0 ?cs ?q0
      = Inr ([Pushed 5 True, Pushed 6 True, Pushed 7 False, Popped 5 True],
              \<lparr>rb_buffer = [5, 6], rb_size = 2, rb_mask = 1, rb_head = 2, rb_tail = 1\<rparr>)"
    by (simp add: Push_def Pop_def word_le_nat_alt)
  from index_invariant [OF h, of ?cs] r
  have "(2 :: uint64) - 1 \<le> 2 \<and> (1 :: uint64) \<le> 2" by simp
  with h r show ?thesis by simp
qed

text \<open>
  Claim C8 as stated fails for \<open>tail \<le> head\<close>: the run that wraps \<open>head\<close> around ends
  with \<open>head = 0\<close> and \<open>tail = 2^64 - 1\<close>.
\<close>

theorem tail_le_head_counterexample:
  "fastqueue_New 1 (0::nat) 1 = Inr (q_at 0 0)
   \<and> run 0 wrap_calls (q_at 0 0) = Inr (wrap_results, q_at 0 (- 1))
   \<and> \<not> rb_tail (q_at 0 (- 1)) \<le> rb_head (q_at 0 (- 1))"
proof -
  have a: "\<not> rb_tail (q_at 0 (- 1)) \<le> rb_head (q_at 0 (- 1))"
    by (simp add: q_at_def)
  show ?thesis by (intro conjI New_q run_wrap_calls a)
qed

text \<open>
  Claim C9 at the size 0, which is not a power of two: the test \<open>size & (size - 1) != 0\<close>
  lets it pass, and \<open>New\<close> returns a queue of capacity 0 with the mask \<open>2^64 - 1\<close>
  instead of panicking.
\<close>

theorem New_size_zero:
  "fastqueue_New maxlen zero 0
     = Inr \<lparr>rb_buffer = [], rb_size = 0, rb_mask = - 1, rb_head = 0, rb_tail = 0\<rparr>
   \<and> unat (0 :: uint64) \<noteq> 2 ^ k"
  by (simp add: fastqueue_New_def)

text \<open>
  The test does reject every other size that is not a power of two, and accepts the
  powers of two that \<open>make\<close> can provide.
\<close>

lemma New_rejects_other_sizes:
  assumes "n \<noteq> 0" "\<And>k. n \<noteq> 2 ^ k"
  shows "fastqueue_New maxlen zero n = Inl SizeNotPowerOfTwo"
  using assms pow2_word [of n] by (auto simp: fastqueue_New_def)

lemma New_accepts_pow2:
  assumes "k < 64" "2 ^ k \<le> maxlen"
  shows "fastqueue_New maxlen zero (2 ^ k)
           = Inr \<lparr>rb_buffer = replicate (2 ^ k) zero, rb_size = 2 ^ k, rb_mask = 2 ^ k - 1,
                  rb_head = 0, rb_tail = 0\<rparr>"
  using assms by (simp add: fastqueue_New_def pow2_and unat_pow2)

section \<open>The arena: arithmetic and stores\<close>

lemma wrap64_id: "- (2 ^ 63) \<le> x \<Longrightarrow> x < 2 ^ 63 \<Longrightarrow> wrap64 x = x"
  by (simp add: wrap64_def)

lemma go_rem_nonneg: "0 \<le> x \<Longrightarrow> 0 < y \<Longrightarrow> go_rem x y = x mod y"
  by (cases "x = 0") (simp_all add: go_rem_def)

lemma padding_of_eq:
  assumes "0 \<le> off" "0 < al" "al < 2 ^ 63"
  shows "padding_of off al = (al - off mod al) mod al"
proof -
  have r: "go_rem off al = off mod al" using assms by (simp add: go_rem_nonneg)
  have "0 \<le> off mod al" "off mod al < al" using assms by simp_all
  then have b: "0 \<le> al - off mod al" "al - off mod al < 2 ^ 63" using assms by linarith+
  then have "wrap64 (al - off mod al) = al - off mod al" by (simp add: wrap64_id)
  then show ?thesis using r b assms by (simp add: padding_of_def go_rem_nonneg)
qed

lemma padding_of_props:
  assumes "0 \<le> off" "0 < al" "al < 2 ^ 63"
  shows "0 \<le> padding_of off al" "padding_of off al < al" "al dvd off + padding_of off al"
proof -
  have e: "padding_of off al = (al - off mod al) mod al" by (rule padding_of_eq [OF assms])
  show "0 \<le> padding_of off al" "padding_of off al < al" using assms by (simp_all add: e)
  have "(off + (al - off mod al) mod al) mod al = (off mod al + (al - off mod al)) mod al"
    by (simp add: mod_simps)
  also have "\<dots> = 0" by simp
  finally show "al dvd off + padding_of off al" by (simp add: e mod_eq_0_iff_dvd)
qed

lemma length_store_zero [simp]: "length (store_zero p n b) = length b"
  by (simp add: store_zero_def)

lemma nth_store_zero:
  "k < length b \<Longrightarrow> store_zero p n b ! k = (if p \<le> k \<and> k < p + n then 0 else b ! k)"
  by (simp add: store_zero_def)

lemma length_zero_loop [simp]: "length (zero_loop es base c i b) = length b"
proof (induction es base c i b rule: zero_loop.induct)
  case (1 es base c i b)
  show ?case
  proof (cases "i < c")
    case True
    then show ?thesis using 1 by (subst zero_loop.simps) simp
  next
    case False
    then show ?thesis by (subst zero_loop.simps) simp
  qed
qed

lemma nth_zero_loop:
  assumes "0 \<le> i" "k < length b"
  shows "zero_loop es base c i b ! k
           = (if base + nat i * es \<le> k \<and> k < base + nat c * es \<and> i < c then 0 else b ! k)"
  using assms
proof (induction es base c i b rule: zero_loop.induct)
  case (1 es base c i b)
  show ?case
  proof (cases "i < c")
    case False
    then show ?thesis by (subst zero_loop.simps) simp
  next
    case True
    let ?b = "store_zero (base + nat i * es) es b"
    have s: "nat (i + 1) = Suc (nat i)" using "1.prems" by simp
    have "zero_loop es base c i b ! k = zero_loop es base c (i + 1) ?b ! k"
      using True by (subst zero_loop.simps) simp
    also have "\<dots> = (if base + nat (i + 1) * es \<le> k \<and> k < base + nat c * es \<and> i + 1 < c
                       then 0 else ?b ! k)"
      using "1.IH" [OF True] "1.prems" by simp
    also have "\<dots> = (if base + nat i * es \<le> k \<and> k < base + nat c * es \<and> i < c then 0 else b ! k)"
    proof -
      have "Suc (nat i) \<le> nat c" using True "1.prems"(1) by linarith
      then have m: "Suc (nat i) * es \<le> nat c * es" by (rule mult_le_mono1)
      show ?thesis
      proof (cases "i + 1 < c")
        case True
        then show ?thesis using "1.prems" s m by (auto simp: nth_store_zero)
      next
        case False
        then have "c = i + 1" using \<open>i < c\<close> by simp
        then have "nat c = Suc (nat i)" using s by simp
        then show ?thesis using "1.prems" \<open>i < c\<close> False by (auto simp: nth_store_zero)
      qed
    qed
    finally show ?thesis .
  qed
qed

section \<open>The arena: what a successful allocation does\<close>

lemma wrap64_nonneg:
  assumes "0 \<le> x" "x < 2 ^ 64" "0 \<le> wrap64 x"
  shows "wrap64 x = x"
proof (cases "x < 2 ^ 63")
  case True
  then show ?thesis using assms by (simp add: wrap64_id)
next
  case False
  then have "(x + 2 ^ 63) mod 2 ^ 64 = x + 2 ^ 63 - 2 ^ 64"
    using assms by (simp add: mod_pos_geq)
  then have "wrap64 x = x - 2 ^ 64" by (simp add: wrap64_def)
  then show ?thesis using assms by simp
qed

lemma arena_New_unfold:
  "arena_New sz align a =
     (if align = 0 then (Inl DivideByZero, a)
      else if int (length (a_buf a))
                < wrap64 (wrap64 (a_offset a + padding_of (a_offset a) (int align)) + int sz)
      then (Inl OutOfMemory, a)
      else if \<not> (0 \<le> wrap64 (a_offset a + padding_of (a_offset a) (int align))
                 \<and> wrap64 (a_offset a + padding_of (a_offset a) (int align)) < int (length (a_buf a)))
      then (Inl IndexOutOfRange, a\<lparr>a_offset := wrap64 (a_offset a + padding_of (a_offset a) (int align))\<rparr>)
      else if int (length (a_buf a))
                < wrap64 (a_offset a + padding_of (a_offset a) (int align)) + int sz
      then (Inl MemoryFault,
            a\<lparr>a_offset := wrap64 (wrap64 (a_offset a + padding_of (a_offset a) (int align)) + int sz)\<rparr>)
      else (Inr (wrap64 (a_offset a + padding_of (a_offset a) (int align))),
            \<lparr>a_buf = store_zero (nat (wrap64 (a_offset a + padding_of (a_offset a) (int align)))) sz (a_buf a),
             a_offset = wrap64 (wrap64 (a_offset a + padding_of (a_offset a) (int align)) + int sz)\<rparr>))"
  by (simp add: arena_New_def padding_of_def Let_def)

lemma MakeSlice_unfold:
  "MakeSlice es ea len c a =
     (if ea = 0 then (Inl DivideByZero, a)
      else if int (length (a_buf a))
                < wrap64 (wrap64 (a_offset a + padding_of (a_offset a) (int ea)) + wrap64 (int es * c))
      then (Inl OutOfMemory, a)
      else if \<not> (0 \<le> wrap64 (a_offset a + padding_of (a_offset a) (int ea))
                 \<and> wrap64 (a_offset a + padding_of (a_offset a) (int ea)) < int (length (a_buf a)))
      then (Inl IndexOutOfRange, a\<lparr>a_offset := wrap64 (a_offset a + padding_of (a_offset a) (int ea))\<rparr>)
      else if c < 0
      then (Inl UnsafeSliceLen,
            a\<lparr>a_offset := wrap64 (wrap64 (a_offset a + padding_of (a_offset a) (int ea)) + wrap64 (int es * c))\<rparr>)
      else if int (length (a_buf a))
                < wrap64 (a_offset a + padding_of (a_offset a) (int ea)) + int es * c
      then (Inl MemoryFault,
            a\<lparr>a_offset := wrap64 (wrap64 (a_offset a + padding_of (a_offset a) (int ea)) + wrap64 (int es * c))\<rparr>)
      else if len < 0 \<or> c < len
      then (Inl SliceBounds,
            \<lparr>a_buf = zero_loop es (nat (wrap64 (a_offset a + padding_of (a_offset a) (int ea)))) c 0 (a_buf a),
             a_offset = wrap64 (wrap64 (a_offset a + padding_of (a_offset a) (int ea)) + wrap64 (int es * c))\<rparr>)
      else (Inr \<lparr>s_data = wrap64 (a_offset a + padding_of (a_offset a) (int ea)), s_len = len, s_cap = c\<rparr>,
            \<lparr>a_buf = zero_loop es (nat (wrap64 (a_offset a + padding_of (a_offset a) (int ea)))) c 0 (a_buf a),
             a_offset = wrap64 (wrap64 (a_offset a + padding_of (a_offset a) (int ea)) + wrap64 (int es * c))\<rparr>))"
  by (simp add: MakeSlice_def padding_of_def Let_def)

lemma bump_exact:
  assumes ok: "arena_ok a" and al: "0 < al" "al < 2 ^ 63"
    and idx: "0 \<le> wrap64 (a_offset a + padding_of (a_offset a) al)"
  shows "wrap64 (a_offset a + padding_of (a_offset a) al) = a_offset a + padding_of (a_offset a) al"
proof -
  have o: "0 \<le> a_offset a" "a_offset a < 2 ^ 63" using ok by (simp_all add: arena_ok_def)
  have "0 \<le> padding_of (a_offset a) al" "padding_of (a_offset a) al < al"
    using padding_of_props [OF o(1) al] by simp_all
  moreover have "(2::int) ^ 64 = 2 ^ 63 + 2 ^ 63" by simp
  ultimately have "0 \<le> a_offset a + padding_of (a_offset a) al"
     "a_offset a + padding_of (a_offset a) al < 2 ^ 64" using o al by linarith+
  then show ?thesis using idx by (rule wrap64_nonneg)
qed

lemma New_success:
  assumes ok: "arena_ok a" and al: "0 < align" "int align < 2 ^ 63"
    and res: "arena_New sz align a = (Inr p, a')"
  shows "p = a_offset a + padding_of (a_offset a) (int align)"
    and "p + int sz \<le> int (length (a_buf a))"
    and "a_offset a' = p + int sz"
    and "a_buf a' = store_zero (nat p) sz (a_buf a)"
proof -
  let ?q = "wrap64 (a_offset a + padding_of (a_offset a) (int align))"
  from res al have g: "0 \<le> ?q" "?q < int (length (a_buf a))"
      "\<not> int (length (a_buf a)) < ?q + int sz"
      "p = ?q" "a' = \<lparr>a_buf = store_zero (nat ?q) sz (a_buf a), a_offset = wrap64 (?q + int sz)\<rparr>"
    by (auto simp: arena_New_unfold split: if_splits)
  have al': "0 < int align" using al by simp
  have q: "?q = a_offset a + padding_of (a_offset a) (int align)"
    using bump_exact [OF ok al' al(2) g(1)] .
  show "p = a_offset a + padding_of (a_offset a) (int align)" using g(4) q by simp
  show le: "p + int sz \<le> int (length (a_buf a))" using g(3,4) by simp
  have "int (length (a_buf a)) < 2 ^ 63" using ok by (simp add: arena_ok_def)
  then have "wrap64 (?q + int sz) = ?q + int sz" using g(1,3) by (intro wrap64_id) linarith+
  then show "a_offset a' = p + int sz" using g(4,5) by simp
  show "a_buf a' = store_zero (nat p) sz (a_buf a)" using g(4,5) by simp
qed

lemma MakeSlice_success:
  assumes ok: "arena_ok a" and al: "0 < ea" "int ea < 2 ^ 63"
    and res: "MakeSlice es ea len c a = (Inr s, a')"
  shows "s_data s = a_offset a + padding_of (a_offset a) (int ea)"
    and "s_data s + int es * c \<le> int (length (a_buf a))"
    and "a_offset a' = s_data s + int es * c"
    and "a_buf a' = zero_loop es (nat (s_data s)) c 0 (a_buf a)"
    and "s_len s = len" and "s_cap s = c" and "0 \<le> len" and "len \<le> c"
proof -
  let ?q = "wrap64 (a_offset a + padding_of (a_offset a) (int ea))"
  from res al have g: "0 \<le> ?q" "?q < int (length (a_buf a))" "0 \<le> c"
      "\<not> int (length (a_buf a)) < ?q + int es * c" "0 \<le> len" "len \<le> c"
      "s = \<lparr>s_data = ?q, s_len = len, s_cap = c\<rparr>"
      "a' = \<lparr>a_buf = zero_loop es (nat ?q) c 0 (a_buf a),
             a_offset = wrap64 (?q + wrap64 (int es * c))\<rparr>"
    by (auto simp: MakeSlice_unfold split: if_splits)
  have al': "0 < int ea" using al by simp
  have q: "?q = a_offset a + padding_of (a_offset a) (int ea)"
    using bump_exact [OF ok al' al(2) g(1)] .
  have l: "int (length (a_buf a)) < 2 ^ 63" using ok by (simp add: arena_ok_def)
  have n: "0 \<le> int es * c" using g(3) by simp
  have w1: "wrap64 (int es * c) = int es * c" using g(1,4) n l by (intro wrap64_id) linarith+
  have w2: "wrap64 (?q + int es * c) = ?q + int es * c" using g(1,4) n l by (intro wrap64_id) linarith+
  show "s_data s = a_offset a + padding_of (a_offset a) (int ea)" using g(7) q by simp
  show "s_data s + int es * c \<le> int (length (a_buf a))" using g(4,7) by simp
  show "a_offset a' = s_data s + int es * c" using g(7,8) w1 w2 by simp
  show "a_buf a' = zero_loop es (nat (s_data s)) c 0 (a_buf a)" using g(7,8) by simp
  show "s_len s = len" "s_cap s = c" "0 \<le> len" "len \<le> c" using g by simp_all
qed

section \<open>The arena: the claims\<close>

lemma New_result:
  assumes "arena_New sz align a = (Inr p, a')"
  shows "0 \<le> p" "p + int sz \<le> int (length (a_buf a))"
    "a_buf a' = store_zero (nat p) sz (a_buf a)"
  using assms by (auto simp: arena_New_unfold split: if_splits)

lemma MakeSlice_result:
  assumes "MakeSlice es ea len c a = (Inr s, a')"
  shows "0 \<le> s_data s" "0 \<le> c" "s_data s + int es * c \<le> int (length (a_buf a))"
    "a_buf a' = zero_loop es (nat (s_data s)) c 0 (a_buf a)"
    "s_cap s = c" "s_len s = len" "0 \<le> len" "len \<le> c"
  using assms by (auto simp: MakeSlice_unfold split: if_splits)

lemma zero_region:
  fixes b :: "byte list"
  assumes "p + n \<le> length b" "\<And>k. p \<le> k \<Longrightarrow> k < p + n \<Longrightarrow> b ! k = 0"
  shows "take n (drop p b) = replicate n 0"
proof (rule nth_equalityI)
  show "length (take n (drop p b)) = length (replicate n (0::byte))" using assms(1) by simp
next
  fix i assume "i < length (take n (drop p b))"
  then have i: "i < n" by simp
  then have "take n (drop p b) ! i = b ! (p + i)" using assms(1) by simp
  also have "\<dots> = 0" using i by (intro assms(2)) simp_all
  finally show "take n (drop p b) ! i = replicate n 0 ! i" using i by simp
qed

lemma New_zero_filled:
  assumes "arena_New sz align a = (Inr p, a')"
  shows "take sz (drop (nat p) (a_buf a')) = replicate sz 0"
proof -
  note r = New_result [OF assms]
  have l: "nat p + sz \<le> length (a_buf a)" using r(1,2) by linarith
  show ?thesis
    unfolding r(3)
  proof (rule zero_region)
    show "nat p + sz \<le> length (store_zero (nat p) sz (a_buf a))" using l by simp
  next
    fix k assume "nat p \<le> k" "k < nat p + sz"
    then show "store_zero (nat p) sz (a_buf a) ! k = 0" using l by (simp add: nth_store_zero)
  qed
qed

lemma MakeSlice_zero_filled:
  assumes "MakeSlice es ea len c a = (Inr s, a')"
  shows "take (es * nat c) (drop (nat (s_data s)) (a_buf a')) = replicate (es * nat c) 0"
proof -
  note r = MakeSlice_result [OF assms]
  have "int (nat (s_data s) + es * nat c) = s_data s + int es * c" using r(1,2) by simp
  then have l: "nat (s_data s) + es * nat c \<le> length (a_buf a)" using r(3) by linarith
  show ?thesis
    unfolding r(4)
  proof (rule zero_region)
    show "nat (s_data s) + es * nat c \<le> length (zero_loop es (nat (s_data s)) c 0 (a_buf a))"
      using l by simp
  next
    fix k assume k: "nat (s_data s) \<le> k" "k < nat (s_data s) + es * nat c"
    then have "k < length (a_buf a)" using l by simp
    then have "zero_loop es (nat (s_data s)) c 0 (a_buf a) ! k
          = (if nat (s_data s) + nat 0 * es \<le> k \<and> k < nat (s_data s) + nat c * es \<and> 0 < c
             then 0 else a_buf a ! k)"
      by (intro nth_zero_loop) simp_all
    moreover have "0 < c" using k r(2) by (cases "c = 0") auto
    ultimately show "zero_loop es (nat (s_data s)) c 0 (a_buf a) ! k = 0"
      using k by (simp add: mult.commute)
  qed
qed

text \<open>
  Claim C7. The span of every allocation that returns is zero-filled in the arena it
  leaves, whatever bytes the region held before: \<open>New\<close> returns the offset \<open>p\<close> of
  \<open>sz\<close> zero bytes inside the region, the zero value of \<open>T\<close>; \<open>MakeSlice\<close> returns a
  slice of capacity \<open>c\<close> whose \<open>c\<close> elements, \<open>es * c\<close> bytes inside the region, are all
  zero.
\<close>

theorem allocation_zero_filled:
  "(arena_New sz align a = (Inr p, a') \<longrightarrow>
      0 \<le> p \<and> p + int sz \<le> int (length (a_buf a'))
      \<and> take sz (drop (nat p) (a_buf a')) = replicate sz 0)
   \<and> (MakeSlice es ea len c a = (Inr s, a'') \<longrightarrow>
      0 \<le> s_data s \<and> s_cap s = c \<and> 0 \<le> c
      \<and> s_data s + int es * c \<le> int (length (a_buf a''))
      \<and> take (es * nat c) (drop (nat (s_data s)) (a_buf a'')) = replicate (es * nat c) 0)"
proof (intro conjI impI)
  assume r: "arena_New sz align a = (Inr p, a')"
  show "0 \<le> p" by (rule New_result(1) [OF r])
  show "p + int sz \<le> int (length (a_buf a'))"
    using New_result(2) [OF r] by (simp add: New_result(3) [OF r])
  show "take sz (drop (nat p) (a_buf a')) = replicate sz 0" by (rule New_zero_filled [OF r])
next
  assume r: "MakeSlice es ea len c a = (Inr s, a'')"
  show "0 \<le> s_data s" "s_cap s = c" "0 \<le> c" using MakeSlice_result [OF r] by simp_all
  show "s_data s + int es * c \<le> int (length (a_buf a''))"
    using MakeSlice_result(3) [OF r] by (simp add: MakeSlice_result(4) [OF r])
  show "take (es * nat c) (drop (nat (s_data s)) (a_buf a'')) = replicate (es * nat c) 0"
    by (rule MakeSlice_zero_filled [OF r])
qed

text \<open>An object of size 4 and a slice of three elements of size 2, in regions of stale bytes.\<close>

theorem allocation_zero_filled_witness:
  "arena_New 4 4 \<lparr>a_buf = [1, 2, 3, 4, 5, 6, 7, 8], a_offset = 1\<rparr>
     = (Inr 4, \<lparr>a_buf = [1, 2, 3, 4, 0, 0, 0, 0], a_offset = 8\<rparr>)
   \<and> take 4 (drop (nat 4) [1, 2, 3, 4, 0, 0, 0, 0 :: byte]) = replicate 4 0
   \<and> MakeSlice 2 2 1 3 \<lparr>a_buf = [1, 2, 3, 4, 5, 6, 7, 8, 9], a_offset = 1\<rparr>
     = (Inr \<lparr>s_data = 2, s_len = 1, s_cap = 3\<rparr>,
        \<lparr>a_buf = [1, 2, 0, 0, 0, 0, 0, 0, 9], a_offset = 8\<rparr>)
   \<and> take (2 * nat 3) (drop (nat 2) [1, 2, 0, 0, 0, 0, 0, 0, 9 :: byte]) = replicate (2 * nat 3) 0"
proof -
  have n: "arena_New 4 4 \<lparr>a_buf = [1, 2, 3, 4, 5, 6, 7, 8], a_offset = 1\<rparr>
     = (Inr 4, \<lparr>a_buf = [1, 2, 3, 4, 0, 0, 0, 0], a_offset = 8\<rparr>)"
    by code_simp
  have m: "MakeSlice 2 2 1 3 \<lparr>a_buf = [1, 2, 3, 4, 5, 6, 7, 8, 9], a_offset = 1\<rparr>
     = (Inr \<lparr>s_data = 2, s_len = 1, s_cap = 3\<rparr>,
        \<lparr>a_buf = [1, 2, 0, 0, 0, 0, 0, 0, 9], a_offset = 8\<rparr>)"
    by code_simp
  note t = allocation_zero_filled [where sz = 4 and align = 4 and p = 4
      and a = "\<lparr>a_buf = [1, 2, 3, 4, 5, 6, 7, 8], a_offset = 1\<rparr>"
      and a' = "\<lparr>a_buf = [1, 2, 3, 4, 0, 0, 0, 0], a_offset = 8\<rparr>"]
  note u = allocation_zero_filled [where es = 2 and ea = 2 and len = 1 and c = 3
      and a = "\<lparr>a_buf = [1, 2, 3, 4, 5, 6, 7, 8, 9], a_offset = 1\<rparr>"
      and s = "\<lparr>s_data = 2, s_len = 1, s_cap = 3\<rparr>"
      and a'' = "\<lparr>a_buf = [1, 2, 0, 0, 0, 0, 0, 0, 9], a_offset = 8\<rparr>"]
  have z1: "take 4 (drop (nat 4) [1, 2, 3, 4, 0, 0, 0, 0 :: byte]) = replicate 4 0"
    using t [THEN conjunct1, rule_format, OF n] by simp
  have z2: "take (2 * nat 3) (drop (nat 2) [1, 2, 0, 0, 0, 0, 0, 0, 9 :: byte]) = replicate (2 * nat 3) 0"
    using u [THEN conjunct2, rule_format, OF m] by simp
  from n m z1 z2 show ?thesis by (intro conjI)
qed

lemma alloc_success:
  assumes ok: "arena_ok a" and al: "0 < req_align r" "int (req_align r) < 2 ^ 63"
    and res: "alloc r a = (Inr sp, a')"
  shows "arena_ok a' \<and> a_offset a \<le> fst sp \<and> 0 \<le> snd sp \<and> a_offset a' = fst sp + snd sp
         \<and> int (req_align r) dvd fst sp \<and> length (a_buf a') = length (a_buf a)"
proof (cases r)
  case (ReqNew sz align)
  with res obtain p where r: "arena_New sz align a = (Inr p, a')" and sp: "sp = (p, int sz)"
    by (auto split: prod.splits sum.splits)
  have al': "0 < align" "int align < 2 ^ 63" using al ReqNew by simp_all
  note s = New_success [OF ok al' r]
  have o: "0 \<le> a_offset a" "int (length (a_buf a)) < 2 ^ 63" using ok by (simp_all add: arena_ok_def)
  have al'': "0 < int align" using al' by simp
  note pp = padding_of_props [OF o(1) al'' al'(2)]
  have "arena_ok a'" using s o pp by (simp add: arena_ok_def)
  moreover have "int align dvd p" using pp(3) s(1) by simp
  ultimately show ?thesis using s pp sp ReqNew by simp
next
  case (ReqMakeSlice es ea len c)
  with res obtain s where r: "MakeSlice es ea len c a = (Inr s, a')"
    and sp: "sp = (s_data s, int es * s_cap s)"
    by (auto split: prod.splits sum.splits)
  have al': "0 < ea" "int ea < 2 ^ 63" using al ReqMakeSlice by simp_all
  note s = MakeSlice_success [OF ok al' r]
  have c: "0 \<le> c" using s(7,8) by simp
  have o: "0 \<le> a_offset a" "int (length (a_buf a)) < 2 ^ 63" using ok by (simp_all add: arena_ok_def)
  have al'': "0 < int ea" using al' by simp
  note pp = padding_of_props [OF o(1) al'' al'(2)]
  have n: "0 \<le> int es * c" using c by simp
  have "arena_ok a'" using s(1-4) o pp n by (simp add: arena_ok_def)
  moreover have "int ea dvd s_data s" using pp(3) s(1) by simp
  ultimately show ?thesis using s pp sp n ReqMakeSlice by simp
qed

lemma allocs_chained:
  assumes "arena_ok a" "\<forall>r\<in>set rs. 0 < req_align r \<and> int (req_align r) < 2 ^ 63"
    "allocs rs a = (sps, e, a')"
  shows "chained (a_offset a) (int (length (a_buf a))) sps \<and> length sps \<le> length rs
         \<and> list_all2 (\<lambda>r sp. int (req_align r) dvd fst sp) (take (length sps) rs) sps"
  using assms
proof (induction rs arbitrary: a sps)
  case Nil
  then show ?case by (simp add: arena_ok_def)
next
  case (Cons r rs)
  show ?case
  proof (cases "alloc r a")
    case (Pair x a1)
    show ?thesis
    proof (cases x)
      case (Inl p)
      then have "sps = []" using Cons.prems(3) Pair by simp
      then show ?thesis using Cons.prems(1) by (simp add: arena_ok_def)
    next
      case (Inr sp)
      then obtain sps1 where t: "allocs rs a1 = (sps1, e, a')" and sps: "sps = sp # sps1"
        using Cons.prems(3) Pair by (auto split: prod.splits)
      have al: "0 < req_align r" "int (req_align r) < 2 ^ 63" using Cons.prems(2) by simp_all
      have res: "alloc r a = (Inr sp, a1)" using Pair Inr by simp
      note s = alloc_success [OF Cons.prems(1) al res]
      have ok1: "arena_ok a1" using s by simp
      have rest: "\<forall>r\<in>set rs. 0 < req_align r \<and> int (req_align r) < 2 ^ 63"
        using Cons.prems(2) by simp
      note ih = Cons.IH [OF ok1 rest t]
      show ?thesis using ih s sps by simp
    qed
  qed
qed

lemma chained_bounds:
  "chained lo hi sps \<Longrightarrow> i < length sps \<Longrightarrow>
     lo \<le> fst (sps ! i) \<and> 0 \<le> snd (sps ! i) \<and> fst (sps ! i) + snd (sps ! i) \<le> hi"
proof (induction sps arbitrary: lo i)
  case Nil
  then show ?case by simp
next
  case (Cons sp sps)
  have tl: "chained (fst sp + snd sp) hi sps" using Cons.prems(1) by simp
  have le: "fst sp + snd sp \<le> hi"
  proof (cases sps)
    case Nil
    then show ?thesis using tl by simp
  next
    case (Cons sp' sps')
    then show ?thesis using Cons.IH [OF tl, of 0] by simp
  qed
  show ?case
  proof (cases i)
    case 0
    then show ?thesis using Cons.prems(1) le by simp
  next
    case (Suc k)
    then have "k < length sps" using Cons.prems(2) by simp
    from Cons.IH [OF tl this] show ?thesis using Cons.prems(1) Suc by simp
  qed
qed

lemma chained_ordered:
  "chained lo hi sps \<Longrightarrow> i < j \<Longrightarrow> j < length sps \<Longrightarrow>
     fst (sps ! i) + snd (sps ! i) \<le> fst (sps ! j)"
proof (induction sps arbitrary: lo i j)
  case Nil
  then show ?case by simp
next
  case (Cons sp sps)
  have tl: "chained (fst sp + snd sp) hi sps" using Cons.prems(1) by simp
  obtain k where j: "j = Suc k" using Cons.prems(2) by (cases j) auto
  then have k: "k < length sps" using Cons.prems(3) by simp
  show ?case
  proof (cases i)
    case 0
    then show ?thesis using chained_bounds [OF tl k] j by simp
  next
    case (Suc i')
    then have "i' < k" using Cons.prems(2) j by simp
    from Cons.IH [OF tl this k] show ?thesis using Suc j by simp
  qed
qed

text \<open>
  Claim C3. For a sequence of allocations in one epoch, from a well-formed arena and for
  types whose alignment is positive (and an \<open>int\<close>): the spans handed out, one for each
  request up to the first panic, are pairwise disjoint, each starts at a multiple of the
  alignment of its request, and each lies in the region at or after the cursor the
  sequence started from, hence after every span handed out earlier in the epoch. The
  claim's bound on the total size is not needed: a request that does not fit hands out
  no span.
\<close>

theorem spans_disjoint_aligned:
  assumes "arena_ok a" "\<forall>r\<in>set rs. 0 < req_align r \<and> int (req_align r) < 2 ^ 63"
    "allocs rs a = (sps, e, a')"
  shows "length sps \<le> length rs
    \<and> (\<forall>j<length sps. \<forall>i<j. span_bytes (sps ! i) \<inter> span_bytes (sps ! j) = {})
    \<and> (\<forall>i<length sps. int (req_align (rs ! i)) dvd fst (sps ! i)
          \<and> span_bytes (sps ! i) \<subseteq> {a_offset a ..< int (length (a_buf a))})"
proof -
  from allocs_chained [OF assms] have
    c: "chained (a_offset a) (int (length (a_buf a))) sps" and l: "length sps \<le> length rs"
    and al: "list_all2 (\<lambda>r sp. int (req_align r) dvd fst sp) (take (length sps) rs) sps"
    by simp_all
  have d: "span_bytes (sps ! i) \<inter> span_bytes (sps ! j) = {}" if "i < j" "j < length sps" for i j
    using chained_ordered [OF c that] by (auto simp: span_bytes_def)
  have g: "int (req_align (rs ! i)) dvd fst (sps ! i)
          \<and> span_bytes (sps ! i) \<subseteq> {a_offset a ..< int (length (a_buf a))}"
    if "i < length sps" for i
  proof -
    have "int (req_align (take (length sps) rs ! i)) dvd fst (sps ! i)"
      using list_all2_nthD2 [OF al that] .
    then have "int (req_align (rs ! i)) dvd fst (sps ! i)" using that by simp
    then show ?thesis using chained_bounds [OF c that] by (auto simp: span_bytes_def)
  qed
  show ?thesis using l d g by blast
qed

text \<open>Three allocations in a region of 16 bytes.\<close>

theorem spans_disjoint_aligned_witness:
  "arena_ok \<lparr>a_buf = [1, 2, 3, 4, 5, 6, 7, 8, 9, 10, 11, 12, 13, 14, 15, 16], a_offset = 0\<rparr>
   \<and> allocs [ReqNew 1 1, ReqNew 4 4, ReqMakeSlice 2 2 1 2]
        \<lparr>a_buf = [1, 2, 3, 4, 5, 6, 7, 8, 9, 10, 11, 12, 13, 14, 15, 16], a_offset = 0\<rparr>
       = ([(0, 1), (4, 4), (8, 4)], None,
          \<lparr>a_buf = [0, 2, 3, 4, 0, 0, 0, 0, 0, 0, 0, 0, 13, 14, 15, 16], a_offset = 12\<rparr>)
   \<and> span_bytes (0, 1) \<inter> span_bytes (4, 4) = {}
   \<and> span_bytes (0, 1) \<inter> span_bytes (8, 4) = {}
   \<and> span_bytes (4, 4) \<inter> span_bytes (8, 4) = {}
   \<and> (4 :: int) dvd 4 \<and> (2 :: int) dvd 8"
proof -
  let ?a = "\<lparr>a_buf = [1, 2, 3, 4, 5, 6, 7, 8, 9, 10, 11, 12, 13, 14, 15, 16], a_offset = 0\<rparr>"
  let ?rs = "[ReqNew 1 1, ReqNew 4 4, ReqMakeSlice 2 2 1 2]"
  let ?sps = "[(0, 1), (4, 4), (8, 4)] :: span list"
  have ok: "arena_ok ?a" by (simp add: arena_ok_def)
  have al: "\<forall>r\<in>set ?rs. 0 < req_align r \<and> int (req_align r) < 2 ^ 63" by simp
  have r: "allocs ?rs ?a = (?sps, None,
          \<lparr>a_buf = [0, 2, 3, 4, 0, 0, 0, 0, 0, 0, 0, 0, 13, 14, 15, 16], a_offset = 12\<rparr>)"
    by code_simp
  note t = spans_disjoint_aligned [OF ok al r]
  from t have d: "\<forall>j<length ?sps. \<forall>i<j. span_bytes (?sps ! i) \<inter> span_bytes (?sps ! j) = {}"
    by blast
  have d01: "span_bytes (0, 1) \<inter> span_bytes (4, 4) = {}" using d [rule_format, of 1 0] by simp
  have d02: "span_bytes (0, 1) \<inter> span_bytes (8, 4) = {}" using d [rule_format, of 2 0] by simp
  have d12: "span_bytes (4, 4) \<inter> span_bytes (8, 4) = {}" using d [rule_format, of 2 1] by simp
  from ok r d01 d02 d12 show ?thesis by simp
qed

text \<open>
  Claim C4 at a request of size 0 that ends at the end of the region. On a full arena,
  \<open>New\<close> for a type of size 0 and alignment 1 and \<open>MakeSlice\<close> with capacity 0 pass
  the out-of-memory test, since padding plus size is 0 and does not exceed the remaining
  capacity 0, and panic in the index expression \<open>&a.buf[a.offset]\<close>. With the cursor
  at 7 of 8 bytes, \<open>New\<close> for a type of size 0 and alignment 8 panics there as well,
  and has moved the cursor to 8 before.
\<close>

theorem zero_size_at_end_panics:
  "arena_New 0 1 \<lparr>a_buf = [1, 2, 3, 4, 5, 6, 7, 8], a_offset = 8\<rparr>
     = (Inl IndexOutOfRange, \<lparr>a_buf = [1, 2, 3, 4, 5, 6, 7, 8], a_offset = 8\<rparr>)
   \<and> padding_of 8 1 + 0 \<le> int (length [1, 2, 3, 4, 5, 6, 7, 8 :: byte]) - 8
   \<and> MakeSlice 1 1 0 0 \<lparr>a_buf = [1, 2, 3, 4, 5, 6, 7, 8], a_offset = 8\<rparr>
     = (Inl IndexOutOfRange, \<lparr>a_buf = [1, 2, 3, 4, 5, 6, 7, 8], a_offset = 8\<rparr>)
   \<and> arena_New 0 8 \<lparr>a_buf = [1, 2, 3, 4, 5, 6, 7, 8], a_offset = 7\<rparr>
     = (Inl IndexOutOfRange, \<lparr>a_buf = [1, 2, 3, 4, 5, 6, 7, 8], a_offset = 8\<rparr>)
   \<and> padding_of 7 8 + 0 \<le> int (length [1, 2, 3, 4, 5, 6, 7, 8 :: byte]) - 7"
  by code_simp

text \<open>
  For requests of positive size, with arguments \<open>0 \<le> length \<le> capacity\<close> and sizes that
  do not take the arithmetic beyond 64 bits, the out-of-memory panic is the only failure,
  it occurs exactly when padding plus size exceeds the remaining capacity, and it leaves
  the arena as it was.
\<close>

lemma New_positive_size:
  assumes ok: "arena_ok a" and al: "0 < align" and sz: "0 < sz"
    and small: "int (length (a_buf a)) + int align + int sz < 2 ^ 63"
  shows "arena_New sz align a =
     (if int (length (a_buf a)) - a_offset a < padding_of (a_offset a) (int align) + int sz
      then (Inl OutOfMemory, a)
      else (Inr (a_offset a + padding_of (a_offset a) (int align)),
            \<lparr>a_buf = store_zero (nat (a_offset a + padding_of (a_offset a) (int align))) sz (a_buf a),
             a_offset = a_offset a + padding_of (a_offset a) (int align) + int sz\<rparr>))"
proof -
  define pad where "pad = padding_of (a_offset a) (int align)"
  define L where "L = int (length (a_buf a))"
  have o: "0 \<le> a_offset a" "a_offset a \<le> L" using ok by (simp_all add: arena_ok_def L_def)
  have al': "0 < int align" "int align < 2 ^ 63" using al small by simp_all
  have pp: "0 \<le> pad" "pad < int align"
    using padding_of_props(1,2) [OF o(1) al'] by (simp_all add: pad_def)
  have s: "L + int align + int sz < 2 ^ 63" using small by (simp add: L_def)
  have w1: "wrap64 (a_offset a + pad) = a_offset a + pad"
    using o pp s by (intro wrap64_id) linarith+
  have w2: "wrap64 (a_offset a + pad + int sz) = a_offset a + pad + int sz"
    using o pp s by (intro wrap64_id) linarith+
  show ?thesis
    using al o pp sz w1 w2
    by (simp add: arena_New_unfold flip: pad_def L_def)
qed

lemma MakeSlice_positive_size:
  assumes ok: "arena_ok a" and al: "0 < ea" and sz: "0 < int es * c"
    and args: "0 \<le> len" "len \<le> c"
    and small: "int (length (a_buf a)) + int ea + int es * c < 2 ^ 63"
  shows "MakeSlice es ea len c a =
     (if int (length (a_buf a)) - a_offset a < padding_of (a_offset a) (int ea) + int es * c
      then (Inl OutOfMemory, a)
      else (Inr \<lparr>s_data = a_offset a + padding_of (a_offset a) (int ea), s_len = len, s_cap = c\<rparr>,
            \<lparr>a_buf = zero_loop es (nat (a_offset a + padding_of (a_offset a) (int ea))) c 0 (a_buf a),
             a_offset = a_offset a + padding_of (a_offset a) (int ea) + int es * c\<rparr>))"
proof -
  define pad where "pad = padding_of (a_offset a) (int ea)"
  define L where "L = int (length (a_buf a))"
  define m where "m = int es * c"
  have o: "0 \<le> a_offset a" "a_offset a \<le> L" using ok by (simp_all add: arena_ok_def L_def)
  have s: "L + int ea + m < 2 ^ 63" using small by (simp add: L_def m_def)
  have m: "0 < m" using sz by (simp add: m_def)
  have al': "0 < int ea" "int ea < 2 ^ 63" using al s m o by simp_all
  have pp: "0 \<le> pad" "pad < int ea"
    using padding_of_props(1,2) [OF o(1) al'] by (simp_all add: pad_def)
  have c: "0 \<le> c" using args by simp
  have w0: "wrap64 m = m" using o pp s m by (intro wrap64_id) linarith+
  have w1: "wrap64 (a_offset a + pad) = a_offset a + pad"
    using o pp s m by (intro wrap64_id) linarith+
  have w2: "wrap64 (a_offset a + pad + m) = a_offset a + pad + m"
    using o pp s m by (intro wrap64_id) linarith+
  show ?thesis
    using al o pp m c args w0 w1 w2
    by (simp add: MakeSlice_unfold flip: pad_def L_def m_def)
qed

section \<open>The queue, step by step: the single accesses\<close>

lemma room_pow2:
  assumes inv: "rb_inv rb" and nz: "rb_size rb \<noteq> 0"
  obtains k where "k < 64" "rb_size rb = 2 ^ k" "rb_mask rb = 2 ^ k - 1"
    "length (rb_buffer rb) = 2 ^ k"
proof -
  from inv nz obtain k where k: "k < 64" "rb_size rb = 2 ^ k"
    using pow2_word [of "rb_size rb"] by (auto simp: rb_inv_def)
  moreover have "rb_mask rb = 2 ^ k - 1" using inv k by (simp add: rb_inv_def)
  moreover have "length (rb_buffer rb) = 2 ^ k" using inv k by (simp add: rb_inv_def unat_pow2)
  ultimately show ?thesis using that by blast
qed

lemma store_outside:
  assumes inv: "rb_inv rb" and lt: "rb_head rb - rb_tail rb < rb_size rb"
  defines "j \<equiv> unat (rb_head rb AND rb_mask rb)"
  shows "j < length (rb_buffer rb)"
    and "rb_inv (rb\<lparr>rb_buffer := (rb_buffer rb)[j := x]\<rparr>)"
    and "contents (rb\<lparr>rb_buffer := (rb_buffer rb)[j := x]\<rparr>) = contents rb"
    and "rb_head rb \<noteq> rb_tail rb \<Longrightarrow> unat (rb_tail rb AND rb_mask rb) \<noteq> j"
proof -
  from lt have nz: "rb_size rb \<noteq> 0" by auto
  from room_pow2 [OF inv nz] obtain k where k: "k < 64" "rb_size rb = 2 ^ k"
    "rb_mask rb = 2 ^ k - 1" "length (rb_buffer rb) = 2 ^ k" by blast
  define d where "d = unat (rb_head rb - rb_tail rb)"
  let ?rb = "rb\<lparr>rb_buffer := (rb_buffer rb)[j := x]\<rparr>"
  have dlt: "d < 2 ^ k" using lt k by (simp add: d_def word_less_nat_alt unat_pow2)
  show jlt: "j < length (rb_buffer rb)" unfolding j_def using inv nz by (rule index_in_range)
  show inv': "rb_inv ?rb" using inv by (simp add: rb_inv_def)
  have hd: "rb_head rb = rb_tail rb + of_nat d" by (simp add: d_def)
  have j: "j = (unat (rb_tail rb) + d) mod 2 ^ k"
    unfolding j_def k(3) by (subst hd) (rule slot_nat [OF k(1)])
  have other: "(unat (rb_tail rb) + i) mod 2 ^ k \<noteq> j" if "i < d" for i
    using mod_add_inj [of "unat (rb_tail rb)" i "2 ^ k" d] that dlt j by auto
  have old: "rb_buffer ?rb ! ((unat (rb_tail rb) + i) mod 2 ^ k)
               = rb_buffer rb ! ((unat (rb_tail rb) + i) mod 2 ^ k)" if "i < d" for i
    using other [OF that] by simp
  have "contents ?rb =
          map (\<lambda>i. rb_buffer ?rb ! ((unat (rb_tail rb) + i) mod 2 ^ k)) [0 ..< d]"
    using contents_slots [OF inv', of k] k by (simp add: d_def)
  also have "\<dots> = map (\<lambda>i. rb_buffer rb ! ((unat (rb_tail rb) + i) mod 2 ^ k)) [0 ..< d]"
    using old by simp
  also have "\<dots> = contents rb" using contents_slots [OF inv k(2,1)] by (simp add: d_def)
  finally show "contents ?rb = contents rb" .
  show "unat (rb_tail rb AND rb_mask rb) \<noteq> j" if "rb_head rb \<noteq> rb_tail rb"
  proof -
    have "rb_head rb - rb_tail rb \<noteq> 0" using that by simp
    then have "0 < d" by (simp add: d_def unat_gt_0)
    from other [OF this] have "unat (rb_tail rb) mod 2 ^ k \<noteq> j" by simp
    moreover have "unat (rb_tail rb AND rb_mask rb) = unat (rb_tail rb) mod 2 ^ k"
      unfolding k(3) by (rule unat_and_pow2_mask [OF k(1)])
    ultimately show ?thesis by simp
  qed
qed

lemma publish_head:
  assumes inv: "rb_inv rb" and lt: "rb_head rb - rb_tail rb < rb_size rb"
  shows "rb_inv (rb\<lparr>rb_head := rb_head rb + 1\<rparr>)"
    and "contents (rb\<lparr>rb_head := rb_head rb + 1\<rparr>)
           = contents rb @ [rb_buffer rb ! unat (rb_head rb AND rb_mask rb)]"
    and "unat (rb_head rb + 1 - rb_tail rb) = Suc (unat (rb_head rb - rb_tail rb))"
proof -
  from lt have nz: "rb_size rb \<noteq> 0" by auto
  from room_pow2 [OF inv nz] obtain k where k: "k < 64" "rb_size rb = 2 ^ k"
    "rb_mask rb = 2 ^ k - 1" "length (rb_buffer rb) = 2 ^ k" by blast
  define d where "d = unat (rb_head rb - rb_tail rb)"
  let ?rb = "rb\<lparr>rb_head := rb_head rb + 1\<rparr>"
  have dlt: "d < 2 ^ k" using lt k by (simp add: d_def word_less_nat_alt unat_pow2)
  have e: "rb_head rb + 1 - rb_tail rb = (rb_head rb - rb_tail rb) + 1" by simp
  show d': "unat (rb_head rb + 1 - rb_tail rb) = Suc (unat (rb_head rb - rb_tail rb))"
    unfolding e by (rule unat_succ_less [OF lt])
  show inv': "rb_inv ?rb"
    using inv d' dlt k by (simp add: rb_inv_def word_le_nat_alt unat_pow2 d_def)
  have hd: "rb_head rb = rb_tail rb + of_nat d" by (simp add: d_def)
  have j: "unat (rb_head rb AND rb_mask rb) = (unat (rb_tail rb) + d) mod 2 ^ k"
    unfolding k(3) by (subst hd) (rule slot_nat [OF k(1)])
  have "contents ?rb =
          map (\<lambda>i. rb_buffer rb ! ((unat (rb_tail rb) + i) mod 2 ^ k)) [0 ..< Suc d]"
    using contents_slots [OF inv', of k] k d' by (simp add: d_def)
  also have "\<dots> = map (\<lambda>i. rb_buffer rb ! ((unat (rb_tail rb) + i) mod 2 ^ k)) [0 ..< d]
                   @ [rb_buffer rb ! unat (rb_head rb AND rb_mask rb)]"
    using j by simp
  also have "\<dots> = contents rb @ [rb_buffer rb ! unat (rb_head rb AND rb_mask rb)]"
    using contents_slots [OF inv k(2,1)] by (simp add: d_def)
  finally show "contents ?rb = contents rb @ [rb_buffer rb ! unat (rb_head rb AND rb_mask rb)]" .
qed

lemma publish_tail:
  assumes inv: "rb_inv rb" and ne: "rb_head rb \<noteq> rb_tail rb"
  shows "rb_inv (rb\<lparr>rb_tail := rb_tail rb + 1\<rparr>)"
    and "contents rb = rb_buffer rb ! unat (rb_tail rb AND rb_mask rb)
                         # contents (rb\<lparr>rb_tail := rb_tail rb + 1\<rparr>)"
    and "unat (rb_head rb - (rb_tail rb + 1)) = unat (rb_head rb - rb_tail rb) - 1"
    and "unat (rb_tail rb AND rb_mask rb) < length (rb_buffer rb)"
proof -
  from ne have dnz: "rb_head rb - rb_tail rb \<noteq> 0" by simp
  have le: "rb_head rb - rb_tail rb \<le> rb_size rb" using inv by (simp add: rb_inv_def)
  with dnz have nz: "rb_size rb \<noteq> 0" by auto
  define j where "j = unat (rb_tail rb AND rb_mask rb)"
  define rb' where "rb' = rb\<lparr>rb_tail := rb_tail rb + 1\<rparr>"
  define d where "d = unat (rb_head rb - rb_tail rb)"
  show "unat (rb_tail rb AND rb_mask rb) < length (rb_buffer rb)"
    using inv nz by (rule index_in_range)
  have e: "rb_head rb - (rb_tail rb + 1) = (rb_head rb - rb_tail rb) - 1" by simp
  show d0: "unat (rb_head rb - (rb_tail rb + 1)) = unat (rb_head rb - rb_tail rb) - 1"
    unfolding e by (rule unat_minus_one [OF dnz])
  have d': "unat (rb_head rb' - rb_tail rb') = d - 1" using d0 by (simp add: rb'_def d_def)
  have dpos: "0 < d" using dnz by (simp add: d_def unat_gt_0)
  show "rb_inv (rb\<lparr>rb_tail := rb_tail rb + 1\<rparr>)"
    using inv d0 le by (auto simp: rb_inv_def word_le_nat_alt)
  have "contents rb =
          map (\<lambda>i. rb_buffer rb ! unat ((rb_tail rb + of_nat i) AND rb_mask rb)) [0 ..< Suc (d - 1)]"
    using dpos by (simp add: contents_def d_def)
  also have "\<dots> = rb_buffer rb ! j #
      map (\<lambda>i. rb_buffer rb ! unat ((rb_tail rb + 1 + of_nat i) AND rb_mask rb)) [0 ..< d - 1]"
    by (simp only: map_upt_Suc) (simp add: j_def ac_simps)
  also have "\<dots> = rb_buffer rb ! j # contents rb'"
    using d' by (simp add: contents_def rb'_def)
  finally show "contents rb = rb_buffer rb ! unat (rb_tail rb AND rb_mask rb)
                         # contents (rb\<lparr>rb_tail := rb_tail rb + 1\<rparr>)"
    by (simp add: j_def rb'_def)
qed

section \<open>The queue, step by step: every step preserves the invariant\<close>

lemma pushed_append: "pushed (rs @ rs') = pushed rs @ pushed rs'"
  by (induction rs rule: pushed.induct) simp_all

lemma popped_append: "popped (rs @ rs') = popped rs @ popped rs'"
  by (induction rs rule: popped.induct) simp_all

lemma attempted_append: "attempted (rs @ rs') = attempted rs @ attempted rs'"
  by (induction rs rule: attempted.induct) simp_all

lemma producer_step_inv:
  assumes "config_inv items c"
  shows "\<exists>c'. producer_step c = Inr c' \<and> config_inv items c'"
proof -
  define rb where "rb = c_rb c"
  from assms have inv: "rb_inv rb" and pi: "producer_inv rb (c_prod c)"
    and ci: "consumer_inv rb (c_cons c)"
    and fifo: "pushed (c_hist c) = popped (c_hist c) @ contents rb"
    and att: "attempted (c_hist c) @ in_progress (c_prod c) @ c_todo c = items"
    by (simp_all add: config_inv_def rb_def)
  show ?thesis
  proof (cases "c_prod c")
    case P_idle
    show ?thesis
    proof (cases "c_todo c")
      case Nil
      then show ?thesis using P_idle assms by (simp add: Let_def)
    next
      case (Cons item rest)
      then show ?thesis
        using P_idle inv ci fifo att by (simp add: config_inv_def rb_def Let_def)
    qed
  next
    case (P_head item head)
    then have h: "head = rb_head rb" using pi by simp
    show ?thesis
    proof (cases "rb_size rb \<le> head - rb_tail rb")
      case True
      then show ?thesis
        using P_head inv ci fifo att
        by (simp add: config_inv_def rb_def Let_def pushed_append popped_append attempted_append)
    next
      case False
      then show ?thesis
        using P_head h inv ci fifo att by (simp add: config_inv_def rb_def Let_def)
    qed
  next
    case (P_store item head)
    then have h: "head = rb_head rb" and lt: "rb_head rb - rb_tail rb < rb_size rb"
      using pi by simp_all
    define j where "j = unat (rb_head rb AND rb_mask rb)"
    define rb' where "rb' = rb\<lparr>rb_buffer := (rb_buffer rb)[j := item]\<rparr>"
    note so = store_outside(1) [OF inv lt, folded j_def]
      store_outside(2) [OF inv lt, of item, folded j_def rb'_def]
      store_outside(3) [OF inv lt, of item, folded j_def rb'_def]
      store_outside(4) [OF inv lt, folded j_def]
    have step: "producer_step c = Inr (c\<lparr>c_rb := rb', c_prod := P_publish item\<rparr>)"
      using P_store h so(1) by (simp add: rb_def j_def rb'_def Let_def)
    have pi': "producer_inv rb' (P_publish item)" using lt so(1) by (simp add: rb'_def j_def)
    have ci': "consumer_inv rb' (c_cons c)"
    proof (cases "c_cons c")
      case (C_publish y)
      then have ne: "rb_head rb \<noteq> rb_tail rb"
        and y: "rb_buffer rb ! unat (rb_tail rb AND rb_mask rb) = y" using ci by simp_all
      from so(4) [OF ne] have "rb_buffer rb' ! unat (rb_tail rb AND rb_mask rb) = y"
        using y by (simp add: rb'_def)
      then show ?thesis using C_publish ne by (simp add: rb'_def)
    qed (use ci in \<open>simp_all add: rb'_def\<close>)
    have "config_inv items (c\<lparr>c_rb := rb', c_prod := P_publish item\<rparr>)"
      using so(2,3) pi' ci' fifo att P_store by (simp add: config_inv_def rb'_def)
    then show ?thesis using step by simp
  next
    case (P_publish item)
    then have lt: "rb_head rb - rb_tail rb < rb_size rb"
      and it: "rb_buffer rb ! unat (rb_head rb AND rb_mask rb) = item" using pi by simp_all
    define rb' where "rb' = rb\<lparr>rb_head := rb_head rb + 1\<rparr>"
    note ph = publish_head [OF inv lt, folded rb'_def]
    have step: "producer_step c = Inr (c\<lparr>c_rb := rb', c_prod := P_idle,
                  c_hist := c_hist c @ [Pushed item True]\<rparr>)"
      using P_publish by (simp add: rb_def rb'_def Let_def)
    have d: "unat (rb_head rb' - rb_tail rb') = Suc (unat (rb_head rb - rb_tail rb))"
      using ph(3) by (simp add: rb'_def)
    have ci': "consumer_inv rb' (c_cons c)"
    proof (cases "c_cons c")
      case C_idle
      then show ?thesis by simp
    next
      case (C_head h)
      then have "unat (h - rb_tail rb) \<le> unat (rb_head rb - rb_tail rb)"
        using ci by (simp add: word_le_nat_alt)
      then have "unat (h - rb_tail rb') \<le> unat (rb_head rb' - rb_tail rb')"
        using d by (simp add: rb'_def)
      then show ?thesis using C_head by (simp add: word_le_nat_alt)
    next
      case (C_load t)
      have "rb_head rb' - rb_tail rb' \<noteq> 0" using d by (metis Zero_not_Suc unat_0)
      then show ?thesis using C_load ci by (auto simp: rb'_def)
    next
      case (C_publish y)
      have "rb_head rb' - rb_tail rb' \<noteq> 0" using d by (metis Zero_not_Suc unat_0)
      then show ?thesis using C_publish ci by (auto simp: rb'_def)
    qed
    have "config_inv items (c\<lparr>c_rb := rb', c_prod := P_idle,
                  c_hist := c_hist c @ [Pushed item True]\<rparr>)"
      using ph(1,2) ci' fifo att it P_publish
      by (simp add: config_inv_def pushed_append popped_append attempted_append)
    then show ?thesis using step by simp
  qed
qed

lemma consumer_step_inv:
  assumes "config_inv items c"
  shows "\<exists>c'. consumer_step zero c = Inr c' \<and> config_inv items c'"
proof -
  define rb where "rb = c_rb c"
  from assms have inv: "rb_inv rb" and pi: "producer_inv rb (c_prod c)"
    and ci: "consumer_inv rb (c_cons c)"
    and fifo: "pushed (c_hist c) = popped (c_hist c) @ contents rb"
    and att: "attempted (c_hist c) @ in_progress (c_prod c) @ c_todo c = items"
    by (simp_all add: config_inv_def rb_def)
  show ?thesis
  proof (cases "c_cons c")
    case C_idle
    then show ?thesis using inv pi fifo att by (simp add: config_inv_def rb_def Let_def)
  next
    case (C_head head)
    then have le: "head - rb_tail rb \<le> rb_head rb - rb_tail rb" using ci by simp
    show ?thesis
    proof (cases "head \<le> rb_tail rb")
      case True
      then show ?thesis
        using C_head inv pi fifo att
        by (simp add: config_inv_def rb_def Let_def pushed_append popped_append attempted_append)
    next
      case False
      then have "head - rb_tail rb \<noteq> 0" by auto
      then have "0 < unat (head - rb_tail rb)" by (simp add: unat_gt_0)
      then have "0 < unat (rb_head rb - rb_tail rb)" using le by (simp add: word_le_nat_alt)
      then have "rb_head rb \<noteq> rb_tail rb" by auto
      then show ?thesis
        using False C_head inv pi fifo att by (simp add: config_inv_def rb_def Let_def)
    qed
  next
    case (C_load tail)
    then have t: "tail = rb_tail rb" and ne: "rb_head rb \<noteq> rb_tail rb" using ci by simp_all
    note pt = publish_tail [OF inv ne]
    show ?thesis
      using C_load t ne pt(4) inv pi fifo att by (simp add: config_inv_def rb_def Let_def)
  next
    case (C_publish y)
    then have ne: "rb_head rb \<noteq> rb_tail rb"
      and y: "rb_buffer rb ! unat (rb_tail rb AND rb_mask rb) = y" using ci by simp_all
    define rb' where "rb' = rb\<lparr>rb_tail := rb_tail rb + 1\<rparr>"
    note pt = publish_tail [OF inv ne, folded rb'_def]
    have step: "consumer_step zero c = Inr (c\<lparr>c_rb := rb', c_cons := C_idle,
                  c_hist := c_hist c @ [Popped y True]\<rparr>)"
      using C_publish by (simp add: rb_def rb'_def Let_def)
    have d: "unat (rb_head rb' - rb_tail rb') = unat (rb_head rb - rb_tail rb) - 1"
      using pt(3) by (simp add: rb'_def)
    have lt': "rb_head rb' - rb_tail rb' < rb_size rb'"
      if "rb_head rb - rb_tail rb < rb_size rb"
      using that d by (simp add: word_less_nat_alt rb'_def)
    have pi': "producer_inv rb' (c_prod c)"
    proof (cases "c_prod c")
      case P_idle
      then show ?thesis by simp
    next
      case (P_head item h)
      then show ?thesis using pi by (simp add: rb'_def)
    next
      case (P_store item h)
      then show ?thesis using pi lt' by (simp add: rb'_def)
    next
      case (P_publish item)
      then show ?thesis using pi lt' by (simp add: rb'_def)
    qed
    have "config_inv items (c\<lparr>c_rb := rb', c_cons := C_idle,
                  c_hist := c_hist c @ [Popped y True]\<rparr>)"
      using pt(1,2) pi' fifo att y
      by (simp add: config_inv_def pushed_append popped_append attempted_append)
    then show ?thesis using step by simp
  qed
qed

lemma exec_inv:
  assumes "config_inv items c"
  shows "\<exists>c'. exec zero sched c = Inr c' \<and> config_inv items c'"
  using assms
proof (induction sched arbitrary: c)
  case Nil
  then show ?case by simp
next
  case (Cons a sched)
  show ?case
  proof (cases a)
    case Producer
    from producer_step_inv [OF Cons.prems] obtain c1 where
      "producer_step c = Inr c1" "config_inv items c1" by blast
    then show ?thesis using Cons.IH [of c1] Producer by simp
  next
    case Consumer
    from consumer_step_inv [OF Cons.prems, of zero] obtain c1 where
      "consumer_step zero c = Inr c1" "config_inv items c1" by blast
    then show ?thesis using Cons.IH [of c1] Consumer by simp
  qed
qed

lemma start_inv:
  assumes "fastqueue_New maxlen zero n = Inr q0"
  shows "config_inv items (start q0 items)"
  using New_inv [OF assms] by (simp add: config_inv_def start_def contents_empty)

section \<open>The queue, step by step: the claims\<close>

text \<open>
  A call that runs without the other agent taking a step in between does what \<open>Push\<close>
  and \<open>Pop\<close> above do: four steps for a call that succeeds, two for one that fails.
\<close>

lemma Push_by_steps:
  assumes "c_prod c = P_idle" "c_todo c = item # rest"
  shows "case Push item (c_rb c) of
           Inl p \<Rightarrow> exec zero [Producer, Producer, Producer] c = Inl p
         | Inr (ok, rb') \<Rightarrow>
             exec zero (if ok then [Producer, Producer, Producer, Producer]
                        else [Producer, Producer]) c
               = Inr (c\<lparr>c_rb := rb', c_prod := P_idle, c_todo := rest,
                        c_hist := c_hist c @ [Pushed item ok]\<rparr>)"
  using assms by (simp add: Push_def Let_def)

lemma Pop_by_steps:
  assumes "c_cons c = C_idle"
  shows "case Pop zero (c_rb c) of
           Inl p \<Rightarrow> exec zero [Consumer, Consumer, Consumer] c = Inl p
         | Inr ((x, ok), rb') \<Rightarrow>
             exec zero (if ok then [Consumer, Consumer, Consumer, Consumer]
                        else [Consumer, Consumer]) c
               = Inr (c\<lparr>c_rb := rb', c_cons := C_idle,
                        c_hist := c_hist c @ [Popped x ok]\<rparr>)"
  using assms by (simp add: Pop_def Let_def)

text \<open>
  Claim C1, as amended. Under the single-producer/single-consumer discipline, one agent
  calling \<open>Push\<close> for a list of items and one calling \<open>Pop\<close>, on a queue that \<open>New\<close>
  returned: in every execution, however the steps of the two agents interleave, no step
  panics, and at every moment the items of the \<open>Pop\<close> calls that have returned with
  success are a prefix of the items of the \<open>Push\<close> calls that have returned with
  success, in the same order, none skipped and none twice. The pushed items not yet
  popped are exactly the items the queue stores, oldest first, \<open>head - tail\<close> of them,
  so the two sequences are equal exactly when \<open>head = tail\<close>. The producer pushes its
  items in their order, each once.
\<close>

theorem spsc_fifo_prefix:
  assumes "fastqueue_New maxlen zero n = Inr q0"
  shows "\<exists>c. exec zero sched (start q0 items) = Inr c
           \<and> pushed (c_hist c) = popped (c_hist c) @ contents (c_rb c)
           \<and> length (contents (c_rb c)) = unat (rb_head (c_rb c) - rb_tail (c_rb c))
           \<and> attempted (c_hist c) @ in_progress (c_prod c) @ c_todo c = items"
proof -
  have si: "config_inv items (start q0 items)" by (rule start_inv [OF assms])
  from exec_inv [OF si, of zero sched] obtain c where
    "exec zero sched (start q0 items) = Inr c" "config_inv items c" by blast
  then show ?thesis by (auto simp: config_inv_def length_contents)
qed

text \<open>
  An execution on a queue of capacity 2 in which a \<open>Pop\<close> runs between the store to
  the slot and the publication of \<open>head\<close> by the first \<open>Push\<close>, and finds the queue
  empty.
\<close>

theorem spsc_fifo_prefix_witness:
  "fastqueue_New 8 (0::nat) 2
     = Inr \<lparr>rb_buffer = [0, 0], rb_size = 2, rb_mask = 1, rb_head = 0, rb_tail = 0\<rparr>
   \<and> exec (0::nat)
         [Producer, Producer, Producer, Consumer, Consumer, Producer, Producer, Consumer,
          Producer, Consumer, Consumer, Producer, Consumer, Producer, Consumer]
         (start \<lparr>rb_buffer = [0, 0], rb_size = 2, rb_mask = 1, rb_head = 0, rb_tail = 0\<rparr>
            [5, 6, 7])
       = Inr \<lparr>c_rb = \<lparr>rb_buffer = [5, 6], rb_size = 2, rb_mask = 1, rb_head = 2, rb_tail = 1\<rparr>,
              c_prod = P_idle, c_todo = [7], c_cons = C_head 2,
              c_hist = [Popped 0 False, Pushed 5 True, Popped 5 True, Pushed 6 True]\<rparr>
   \<and> [5, 6] = [5] @ contents \<lparr>rb_buffer = [5, 6::nat], rb_size = 2, rb_mask = 1, rb_head = 2, rb_tail = 1\<rparr>"
proof -
  let ?q0 = "\<lparr>rb_buffer = [0, 0::nat], rb_size = 2, rb_mask = 1, rb_head = 0, rb_tail = 0\<rparr>"
  let ?sched = "[Producer, Producer, Producer, Consumer, Consumer, Producer, Producer, Consumer,
          Producer, Consumer, Consumer, Producer, Consumer, Producer, Consumer]"
  have h: "fastqueue_New 8 (0::nat) 2 = Inr ?q0"
    by (simp add: fastqueue_New_def replicate_2)
  have r: "exec (0::nat) ?sched (start ?q0 [5, 6, 7])
       = Inr \<lparr>c_rb = \<lparr>rb_buffer = [5, 6], rb_size = 2, rb_mask = 1, rb_head = 2, rb_tail = 1\<rparr>,
              c_prod = P_idle, c_todo = [7], c_cons = C_head 2,
              c_hist = [Popped 0 False, Pushed 5 True, Popped 5 True, Pushed 6 True]\<rparr>"
    by code_simp
  from spsc_fifo_prefix [OF h, of ?sched "[5, 6, 7]"] r
  have "[5, 6] = [5] @ contents \<lparr>rb_buffer = [5, 6::nat], rb_size = 2, rb_mask = 1, rb_head = 2, rb_tail = 1\<rparr>"
    by simp
  with h r show ?thesis by (intro conjI)
qed

text \<open>
  Claim C1 as stated fails: when the producer has pushed the item 5 and the consumer
  has not called \<open>Pop\<close>, the pushed items are \<open>[5]\<close> and the popped items are \<open>[]\<close>.
\<close>

theorem spsc_fifo_equal_counterexample:
  "fastqueue_New 8 (0::nat) 2
     = Inr \<lparr>rb_buffer = [0, 0], rb_size = 2, rb_mask = 1, rb_head = 0, rb_tail = 0\<rparr>
   \<and> exec (0::nat) [Producer, Producer, Producer, Producer]
         (start \<lparr>rb_buffer = [0, 0], rb_size = 2, rb_mask = 1, rb_head = 0, rb_tail = 0\<rparr> [5])
       = Inr \<lparr>c_rb = \<lparr>rb_buffer = [5, 0], rb_size = 2, rb_mask = 1, rb_head = 1, rb_tail = 0\<rparr>,
              c_prod = P_idle, c_todo = [], c_cons = C_idle, c_hist = [Pushed 5 True]\<rparr>
   \<and> pushed [Pushed (5::nat) True] = [5] \<and> popped [Pushed (5::nat) True] = []
   \<and> popped [Pushed (5::nat) True] \<noteq> pushed [Pushed (5::nat) True]"
proof -
  have h: "fastqueue_New 8 (0::nat) 2
     = Inr \<lparr>rb_buffer = [0, 0], rb_size = 2, rb_mask = 1, rb_head = 0, rb_tail = 0\<rparr>"
    by (simp add: fastqueue_New_def replicate_2)
  have r: "exec (0::nat) [Producer, Producer, Producer, Producer]
         (start \<lparr>rb_buffer = [0, 0], rb_size = 2, rb_mask = 1, rb_head = 0, rb_tail = 0\<rparr> [5])
       = Inr \<lparr>c_rb = \<lparr>rb_buffer = [5, 0], rb_size = 2, rb_mask = 1, rb_head = 1, rb_tail = 0\<rparr>,
              c_prod = P_idle, c_todo = [], c_cons = C_idle, c_hist = [Pushed 5 True]\<rparr>"
    by code_simp
  from h r show ?thesis by simp
qed

text \<open>
  Claim C2 where \<open>head\<close> has wrapped around. After \<open>2^64 - 1\<close> pairs of a push and a
  pop and one more push on a queue of capacity 1, \<open>head = 0\<close> and \<open>tail = 2^64 - 1\<close>: the
  queue stores one item and \<open>head \<noteq> tail\<close>, yet \<open>Pop\<close> returns failure, since its test
  \<open>tail >= head\<close> compares the wrapped indices; \<open>Push\<close>, whose test \<open>head - tail >= size\<close>
  is safe under wrap-around, finds the queue full. Both leave the queue as it is, so
  every later call fails as well.
\<close>

theorem pop_empty_on_stored_item:
  "fastqueue_New 1 (0::nat) 1 = Inr (q_at 0 0)
   \<and> run 0 wrap_calls (q_at 0 0) = Inr (wrap_results, q_at 0 (- 1))
   \<and> contents (q_at 0 (- 1)) = [0]
   \<and> rb_head (q_at 0 (- 1)) \<noteq> rb_tail (q_at 0 (- 1))
   \<and> Pop 0 (q_at 0 (- 1)) = Inr ((0, False), q_at 0 (- 1))
   \<and> Push 0 (q_at 0 (- 1)) = Inr (False, q_at 0 (- 1))"
proof -
  have a: "Pop 0 (q_at 0 (- 1)) = Inr ((0, False), q_at 0 (- 1))"
    by (simp add: Pop_def q_at_def)
  have b: "rb_head (q_at 0 (- 1)) \<noteq> rb_tail (q_at 0 (- 1))"
    by (simp add: q_at_def)
  have c: "contents (q_at 0 (- 1)) = [0]"
    by (simp add: contents_def q_at_def)
  have d: "Push 0 (q_at 0 (- 1)) = Inr (False, q_at 0 (- 1))"
    by (simp add: Push_def q_at_def)
  show ?thesis by (intro conjI New_q run_wrap_calls a b c d)
qed

section \<open>The logger\<close>

lemma below_ten:
  assumes "d < 10"
  shows "d \<in> set [0, 1, 2, 3, 4, 5, 6, 7, 8, 9 :: nat]"
proof -
  have e: "[0 ..< 10] = [0, 1, 2, 3, 4, 5, 6, 7, 8, 9 :: nat]" by code_simp
  from assms have "d \<in> set [0 ..< 10]" by simp
  then show ?thesis by (simp only: e)
qed

lemma digit_value: "d < 10 \<Longrightarrow> of_char (''0123456789'' ! d) - 48 = (d::nat)"
  using below_ten [of d] by auto

lemma digit_not_minus: "d < 10 \<Longrightarrow> ''0123456789'' ! d \<noteq> CHR ''-''"
  using below_ten [of d] by auto

lemma digits_value_snoc:
  "digits_value (s @ [c]) = 10 * digits_value s + (of_char c - 48)"
  by simp

lemma decimal_props:
  "digits_value (decimal n) = n \<and> decimal n \<noteq> [] \<and> hd (decimal n) \<noteq> CHR ''-''"
proof (induction n rule: decimal.induct)
  case (1 n)
  show ?case
  proof (cases "n < 10")
    case True
    then show ?thesis
      using digit_value [of n] digit_not_minus [of n] by (subst (1 2 3) decimal.simps) simp
  next
    case False
    have m: "n mod 10 < 10" by simp
    from 1 [OF False] have ih: "digits_value (decimal (n div 10)) = n div 10"
      "decimal (n div 10) \<noteq> []" "hd (decimal (n div 10)) \<noteq> CHR ''-''" by simp_all
    have e: "decimal n = decimal (n div 10) @ [''0123456789'' ! (n mod 10)]"
      using False by (subst decimal.simps) simp
    have "digits_value (decimal n) = 10 * (n div 10) + n mod 10"
      unfolding e digits_value_snoc using ih(1) digit_value [OF m] by simp
    then show ?thesis using ih(2,3) by (simp add: e)
  qed
qed

lemma decimal_value_FormatInt: "decimal_value (FormatInt i) = i"
proof (cases "i < 0")
  case True
  then show ?thesis
    using decimal_props [of "nat (- i)"] by (simp add: decimal_value_def FormatInt_def)
next
  case False
  obtain c cs where d: "decimal (nat i) = c # cs" "c \<noteq> CHR ''-''"
    using decimal_props [of "nat i"] by (cases "decimal (nat i)") auto
  have "int (digits_value (decimal (nat i))) = i"
    using False decimal_props [of "nat i"] by simp
  then show ?thesis using False d by (simp add: decimal_value_def FormatInt_def)
qed

text \<open>
  Claim C6. From an empty buffer, \<open>Int("ts", 7)\<close>, \<open>Str("type", "order")\<close>,
  \<open>Msg("processed")\<close> leave exactly the bytes \<open>ts=7 type=order msg=processed\<close> and a
  newline. In general \<open>Int\<close> appends the key, \<open>=\<close>, the integer and a space; \<open>Str\<close>
  appends the key, \<open>=\<close>, the value and a space; \<open>Msg\<close> appends \<open>msg=\<close>, the text and a
  newline; and the integer is written in decimal: read as a decimal number, what is
  written is the integer.
\<close>

theorem logger_output:
  "l_buf (Logger_Msg ''processed'' (Logger_Str ''type'' ''order'' (Logger_Int ''ts'' 7 (Wrap []))))
     = ''ts=7 type=order msg=processed'' @ [CHR 0x0A]
   \<and> l_buf (Logger_Int key v l) = l_buf l @ key @ ''='' @ FormatInt (sint v) @ '' ''
   \<and> l_buf (Logger_Str key s l) = l_buf l @ key @ ''='' @ s @ '' ''
   \<and> l_buf (Logger_Msg m l) = l_buf l @ ''msg='' @ m @ [CHR 0x0A]
   \<and> decimal_value (FormatInt i) = i"
proof -
  have "FormatInt (sint (7 :: int64)) = ''7''" by (simp add: FormatInt_def decimal.simps)
  then have "l_buf (Logger_Msg ''processed'' (Logger_Str ''type'' ''order'' (Logger_Int ''ts'' 7 (Wrap []))))
     = ''ts=7 type=order msg=processed'' @ [CHR 0x0A]"
    by (simp add: Logger_Msg_def Logger_Str_def Logger_Int_def Wrap_def appendString_def appendInt_def)
  then show ?thesis
    by (simp add: Logger_Msg_def Logger_Str_def Logger_Int_def appendString_def appendInt_def
        decimal_value_FormatInt)
qed

section \<open>The worker: memory and arithmetic of the handlers\<close>

lemma length_le_bytes [simp]: "length (le_bytes k n) = k"
  by (induction k arbitrary: n) simp_all

lemma le_value_le_bytes: "le_value (le_bytes k n) = n mod 256 ^ k"
proof (induction k arbitrary: n)
  case 0
  then show ?case by simp
next
  case (Suc k)
  have "unat (of_nat (n mod 256) :: byte) = n mod 256" by (simp add: unat_of_nat)
  then have "le_value (le_bytes (Suc k) n) = n mod 256 + 256 * (n div 256 mod 256 ^ k)"
    using Suc.IH [of "n div 256"] by simp
  also have "\<dots> = n mod 256 ^ Suc k" by (simp add: mod_mult2_eq)
  finally show ?case .
qed

lemma length_store_bytes [simp]: "length (store_bytes p bs b) = length b"
  by (simp add: store_bytes_def)

lemma take_drop_store_bytes:
  assumes "p + length bs \<le> length b"
  shows "take (length bs) (drop p (store_bytes p bs b)) = bs"
proof (rule nth_equalityI)
  show "length (take (length bs) (drop p (store_bytes p bs b))) = length bs"
    using assms by simp
next
  fix i assume "i < length (take (length bs) (drop p (store_bytes p bs b)))"
  then have i: "i < length bs" by simp
  then show "take (length bs) (drop p (store_bytes p bs b)) ! i = bs ! i"
    using assms by (simp add: store_bytes_def)
qed

lemma load_store_int:
  assumes "p + 8 \<le> length b"
  shows "load_int p (store_int p v b) = v"
proof -
  have "take 8 (drop p (store_bytes p (le_bytes 8 (unat v)) b)) = le_bytes 8 (unat v)"
    using take_drop_store_bytes [of p "le_bytes 8 (unat v)" b] assms by simp
  then have "load_int p (store_int p v b) = of_nat (unat v mod 256 ^ 8)"
    by (simp add: load_int_def store_int_def le_value_le_bytes)
  moreover have "unat v < 2 ^ LENGTH(64)" by (rule unsigned_less)
  then have "unat v mod 256 ^ 8 = unat v" by simp
  ultimately show ?thesis by simp
qed

lemma New_fits:
  assumes ok: "arena_ok a" and al: "0 < align" "int align < 2 ^ 63"
    and fits: "padding_of (a_offset a) (int align) + int sz
                 \<le> int (length (a_buf a)) - a_offset a"
    and sz: "0 < sz"
  shows "arena_New sz align a =
      (Inr (a_offset a + padding_of (a_offset a) (int align)),
       \<lparr>a_buf = store_zero (nat (a_offset a + padding_of (a_offset a) (int align))) sz (a_buf a),
        a_offset = a_offset a + padding_of (a_offset a) (int align) + int sz\<rparr>)"
proof -
  define pad where "pad = padding_of (a_offset a) (int align)"
  define L where "L = int (length (a_buf a))"
  have o: "0 \<le> a_offset a" "a_offset a \<le> L" "L < 2 ^ 63"
    using ok by (simp_all add: arena_ok_def L_def)
  have al': "0 < int align" using al by simp
  have pp: "0 \<le> pad" using padding_of_props(1) [OF o(1) al' al(2)] by (simp add: pad_def)
  have f: "a_offset a + pad + int sz \<le> L" using fits by (simp add: pad_def L_def)
  have w1: "wrap64 (a_offset a + pad) = a_offset a + pad"
    using o pp f by (intro wrap64_id) linarith+
  have w2: "wrap64 (a_offset a + pad + int sz) = a_offset a + pad + int sz"
    using o pp f by (intro wrap64_id) linarith+
  show ?thesis
    using al o pp sz f w1 w2
    by (simp add: arena_New_unfold flip: pad_def L_def)
qed

lemma userID_in_range: "unat ((v :: int64) AND 1023) < 1024"
proof -
  have "v AND 1023 \<le> 1023" by (rule word_and_le1)
  then show ?thesis by (simp add: word_le_nat_alt)
qed

lemma double_in_range:
  fixes v :: int64
  assumes "- (2 ^ 62) \<le> sint v" "sint v < 2 ^ 62"
  shows "sint (v * 2) = 2 * sint v"
proof -
  have "sint (v * 2) = signed_take_bit 63 (sint v * sint (2 :: int64))"
    by (simp add: sint_word_ariths)
  also have "\<dots> = signed_take_bit 63 (2 * sint v)" by (simp add: mult.commute)
  also have "\<dots> = 2 * sint v"
    using assms by (intro signed_take_bit_int_eq_self) simp_all
  finally show ?thesis .
qed

section \<open>The worker: the claims\<close>

text \<open>
  What the two handlers do when the arena has room for an \<open>int\<close> and the task's channel
  has room for a value, as they have in the worker's loop: the arena is reset after
  every task and the submitter makes a fresh channel of capacity one for every task.
\<close>

lemma process_calc:
  assumes ty: "Type t = TaskTypeCalc"
    and ok: "arena_ok (Mem e)"
    and fits: "padding_of (a_offset (Mem e)) 8 + 8 \<le> int (length (a_buf (Mem e))) - a_offset (Mem e)"
    and ch: "Resp t = Some ch" "length (ch_buf ch) < ch_cap ch"
  shows "\<exists>m. process F now e t =
      Inr (e\<lparr>Mem := m,
             UserVolume := (UserVolume e)
               (0 := f_add F (UserVolume e 0) (f_of_int F (Value t * 2)))\<rparr>,
           Some (ch\<lparr>ch_buf := ch_buf ch @ [IntMsg (Value t * 2)]\<rparr>))
      \<and> a_offset m = a_offset (Mem e) + padding_of (a_offset (Mem e)) 8 + 8
      \<and> length (a_buf m) = length (a_buf (Mem e))"
proof -
  define p where "p = a_offset (Mem e) + padding_of (a_offset (Mem e)) 8"
  define b where "b = store_zero (nat p) 8 (a_buf (Mem e))"
  have n: "arena_New 8 8 (Mem e) = (Inr p, \<lparr>a_buf = b, a_offset = p + 8\<rparr>)"
    using New_fits [OF ok, of 8 8] fits by (simp add: p_def b_def)
  have o: "0 \<le> a_offset (Mem e)" using ok by (simp add: arena_ok_def)
  have "0 \<le> padding_of (a_offset (Mem e)) 8"
    using padding_of_props(1) [OF o, of 8] by simp
  then have "0 \<le> p" "p + 8 \<le> int (length (a_buf (Mem e)))" using o fits by (simp_all add: p_def)
  then have "nat p + 8 \<le> length b" by (simp add: b_def)
  then have l: "load_int (nat p) (store_int (nat p) (Value t * 2) b) = Value t * 2"
    by (rule load_store_int)
  define m where "m = \<lparr>a_buf = store_int (nat p) (Value t * 2) b, a_offset = p + 8\<rparr>"
  have "process F now e t =
      Inr (e\<lparr>Mem := m,
             UserVolume := (UserVolume e)
               (0 := f_add F (UserVolume e 0) (f_of_int F (Value t * 2)))\<rparr>,
           Some (ch\<lparr>ch_buf := ch_buf ch @ [IntMsg (Value t * 2)]\<rparr>))"
    using ty n l ch by (simp add: process_def send_def m_def Let_def)
  moreover have "a_offset m = a_offset (Mem e) + padding_of (a_offset (Mem e)) 8 + 8"
    by (simp add: m_def p_def)
  moreover have "length (a_buf m) = length (a_buf (Mem e))"
    by (simp add: m_def b_def store_int_def)
  ultimately show ?thesis by blast
qed

lemma process_order:
  assumes ty: "Type t = TaskTypeOrder"
    and ch: "Resp t = Some ch" "length (ch_buf ch) < ch_cap ch"
  shows "process F now e t =
      Inr (e\<lparr>UserVolume := (UserVolume e)
               (unat (Value t AND 1023) :=
                  f_add F (UserVolume e (unat (Value t AND 1023)))
                    (f_mul F (Price t) (f_of_int F (Quantity t))))\<rparr>,
           Some (ch\<lparr>ch_buf := ch_buf ch @
             [OrderMsg \<lparr>Total = f_mul F (Price t) (f_of_int F (Quantity t)),
                        ProcessedAt = now,
                        Log = (case LogBuf t of
                                 None \<Rightarrow> None
                               | Some buf \<Rightarrow>
                                   Some (buf @ ''ts='' @ FormatInt (sint now) @ '' type=order uid=''
                                         @ FormatInt (sint (Value t AND 1023))
                                         @ '' msg=processed'' @ [CHR 0x0A]))\<rparr>]\<rparr>))"
  using ty ch
  by (simp add: process_def send_def Let_def TaskTypeOrder_def TaskTypeCalc_def
      Logger_Bytes_def Logger_Msg_def Logger_Str_def Logger_Int_def Wrap_def
      appendString_def appendInt_def split: option.splits)

lemma engine0_room:
  "arena_ok (Mem engine0)"
  "padding_of (a_offset (Mem engine0)) 8 + 8
     \<le> int (length (a_buf (Mem engine0))) - a_offset (Mem engine0)"
  by (simp_all add: engine0_def arena_ok_def padding_of_def go_rem_def wrap64_def)

lemma chan1_room: "length (ch_buf chan1) < ch_cap chan1"
  by (simp add: chan1_def)

lemma format_small: "FormatInt 7 = ''7''" "FormatInt 1 = ''1''"
  by (simp_all add: FormatInt_def decimal.simps)

lemma wrapped_double: "(4611686018427387904 * 2 :: int64) = - 9223372036854775808"
  by (simp add: eq_neg_iff_add_eq_0)

text \<open>
  Claim C5, as amended. For every input value \<open>v\<close>, processing a scale task sends on
  the task's completion channel exactly the product \<open>2 * v\<close> of the 64-bit \<open>int\<close>
  arithmetic of the code, which is the number \<open>2 * v\<close> whenever
  \<open>-2^62 \<le> v < 2^62\<close> (so the value 50 yields 100), and adds its conversion to
  \<open>float64\<close> to the table at the slot 0. Processing two aggregate tasks that carry the
  same id adds the price-times-quantity total of each to the same slot of the table, the
  one at the index \<open>id & 1023\<close>, which lies in the table; no other slot changes.
\<close>

theorem dispatch_correct:
  "(Type t = TaskTypeCalc \<and> arena_ok (Mem e)
      \<and> padding_of (a_offset (Mem e)) 8 + 8 \<le> int (length (a_buf (Mem e))) - a_offset (Mem e)
      \<and> Resp t = Some ch \<and> length (ch_buf ch) < ch_cap ch
    \<longrightarrow> (\<exists>m. process F now e t =
            Inr (e\<lparr>Mem := m,
                   UserVolume := (UserVolume e)
                     (0 := f_add F (UserVolume e 0) (f_of_int F (Value t * 2)))\<rparr>,
                 Some (ch\<lparr>ch_buf := ch_buf ch @ [IntMsg (Value t * 2)]\<rparr>)))
        \<and> (- (2 ^ 62) \<le> sint (Value t) \<and> sint (Value t) < 2 ^ 62
             \<longrightarrow> sint (Value t * 2) = 2 * sint (Value t)))
   \<and> (Type t1 = TaskTypeOrder \<and> Type t2 = TaskTypeOrder \<and> Value t1 = Value t2
      \<and> Resp t1 = Some ch1 \<and> length (ch_buf ch1) < ch_cap ch1
      \<and> Resp t2 = Some ch2 \<and> length (ch_buf ch2) < ch_cap ch2
    \<longrightarrow> (\<exists>e1 e2 c1 c2.
            process F now1 e t1 = Inr (e1, c1) \<and> process F now2 e1 t2 = Inr (e2, c2)
            \<and> unat (Value t1 AND 1023) < 1024
            \<and> UserVolume e2 =
                (UserVolume e)
                  (unat (Value t1 AND 1023) :=
                     f_add F
                       (f_add F (UserVolume e (unat (Value t1 AND 1023)))
                          (f_mul F (Price t1) (f_of_int F (Quantity t1))))
                       (f_mul F (Price t2) (f_of_int F (Quantity t2))))))"
proof (intro conjI impI)
  assume a: "Type t = TaskTypeCalc \<and> arena_ok (Mem e)
      \<and> padding_of (a_offset (Mem e)) 8 + 8 \<le> int (length (a_buf (Mem e))) - a_offset (Mem e)
      \<and> Resp t = Some ch \<and> length (ch_buf ch) < ch_cap ch"
  from process_calc [of t e ch F now] a
  show "\<exists>m. process F now e t =
            Inr (e\<lparr>Mem := m,
                   UserVolume := (UserVolume e)
                     (0 := f_add F (UserVolume e 0) (f_of_int F (Value t * 2)))\<rparr>,
                 Some (ch\<lparr>ch_buf := ch_buf ch @ [IntMsg (Value t * 2)]\<rparr>))"
    by blast
next
  assume "- (2 ^ 62) \<le> sint (Value t) \<and> sint (Value t) < 2 ^ 62"
  then show "sint (Value t * 2) = 2 * sint (Value t)" by (simp add: double_in_range)
next
  assume a: "Type t1 = TaskTypeOrder \<and> Type t2 = TaskTypeOrder \<and> Value t1 = Value t2
      \<and> Resp t1 = Some ch1 \<and> length (ch_buf ch1) < ch_cap ch1
      \<and> Resp t2 = Some ch2 \<and> length (ch_buf ch2) < ch_cap ch2"
  define i where "i = unat (Value t1 AND 1023)"
  define e1 where "e1 = e\<lparr>UserVolume := (UserVolume e)
               (i := f_add F (UserVolume e i) (f_mul F (Price t1) (f_of_int F (Quantity t1))))\<rparr>"
  define e2 where "e2 = e1\<lparr>UserVolume := (UserVolume e1)
               (i := f_add F (UserVolume e1 i) (f_mul F (Price t2) (f_of_int F (Quantity t2))))\<rparr>"
  from a have p1: "\<exists>c1. process F now1 e t1 = Inr (e1, c1)"
    using process_order [of t1 ch1 F now1 e] by (simp add: e1_def i_def)
  from a have p2: "\<exists>c2. process F now2 e1 t2 = Inr (e2, c2)"
    using process_order [of t2 ch2 F now2 e1] by (simp add: e2_def i_def)
  have v: "UserVolume e2 =
                (UserVolume e)
                  (i := f_add F
                       (f_add F (UserVolume e i) (f_mul F (Price t1) (f_of_int F (Quantity t1))))
                       (f_mul F (Price t2) (f_of_int F (Quantity t2))))"
    by (simp add: e2_def e1_def)
  have r: "i < 1024" unfolding i_def by (rule userID_in_range)
  from p1 p2 v r show "\<exists>e1 e2 c1 c2.
            process F now1 e t1 = Inr (e1, c1) \<and> process F now2 e1 t2 = Inr (e2, c2)
            \<and> unat (Value t1 AND 1023) < 1024
            \<and> UserVolume e2 =
                (UserVolume e)
                  (unat (Value t1 AND 1023) :=
                     f_add F
                       (f_add F (UserVolume e (unat (Value t1 AND 1023)))
                          (f_mul F (Price t1) (f_of_int F (Quantity t1))))
                       (f_mul F (Price t2) (f_of_int F (Quantity t2))))"
    unfolding i_def by blast
qed

text \<open>
  The value 50 yields 100; two orders for the id 1, of 100 times 5 and 100 times 3, leave
  800 in the slot 1 and nothing in the slot 0.
\<close>

theorem dispatch_correct_witness:
  "delivered (process int_ops 7 engine0
      \<lparr>Type = TaskTypeCalc, Value = 50, Price = 0, Quantity = 0, Resp = Some chan1, LogBuf = None\<rparr>)
     = [IntMsg 100]
   \<and> sint (50 * 2 :: int64) = 2 * sint (50 :: int64)
   \<and> (\<exists>e1 e2 c1 c2.
        process int_ops 7 engine0
          \<lparr>Type = TaskTypeOrder, Value = 1, Price = 100, Quantity = 5, Resp = Some chan1,
            LogBuf = Some []\<rparr> = Inr (e1, c1)
        \<and> process int_ops 8 e1
          \<lparr>Type = TaskTypeOrder, Value = 1, Price = 100, Quantity = 3, Resp = Some chan1,
            LogBuf = None\<rparr> = Inr (e2, c2)
        \<and> UserVolume e2 1 = 800 \<and> UserVolume e2 0 = 0)"
proof -
  let ?t = "\<lparr>Type = TaskTypeCalc, Value = 50, Price = 0::int, Quantity = 0, Resp = Some chan1,
             LogBuf = None\<rparr>"
  let ?t1 = "\<lparr>Type = TaskTypeOrder, Value = 1, Price = 100::int, Quantity = 5, Resp = Some chan1,
            LogBuf = Some []\<rparr>"
  let ?t2 = "\<lparr>Type = TaskTypeOrder, Value = 1, Price = 100::int, Quantity = 3, Resp = Some chan1,
            LogBuf = None\<rparr>"
  note d = dispatch_correct [where t = ?t and e = engine0 and ch = chan1 and F = int_ops
      and now = 7 and ?t1.0 = ?t1 and ?t2.0 = ?t2 and ?ch1.0 = chan1 and ?ch2.0 = chan1
      and ?now1.0 = 7 and ?now2.0 = 8]
  have c: "Type ?t = TaskTypeCalc \<and> arena_ok (Mem engine0)
      \<and> padding_of (a_offset (Mem engine0)) 8 + 8
           \<le> int (length (a_buf (Mem engine0))) - a_offset (Mem engine0)
      \<and> Resp ?t = Some chan1 \<and> length (ch_buf chan1) < ch_cap chan1"
    using engine0_room chan1_room by simp
  from d [THEN conjunct1, rule_format, OF c]
  have "\<exists>m. process int_ops 7 engine0 ?t =
            Inr (engine0\<lparr>Mem := m,
                   UserVolume := (UserVolume engine0)
                     (0 := f_add int_ops (UserVolume engine0 0) (f_of_int int_ops (Value ?t * 2)))\<rparr>,
                 Some (chan1\<lparr>ch_buf := ch_buf chan1 @ [IntMsg (Value ?t * 2)]\<rparr>))"
    by (rule conjunct1)
  then have r1: "delivered (process int_ops 7 engine0 ?t) = [IntMsg 100]"
    by (auto simp: delivered_def chan1_def)
  have r2: "sint (50 * 2 :: int64) = 2 * sint (50 :: int64)" by simp
  have o: "Type ?t1 = TaskTypeOrder \<and> Type ?t2 = TaskTypeOrder \<and> Value ?t1 = Value ?t2
      \<and> Resp ?t1 = Some chan1 \<and> length (ch_buf chan1) < ch_cap chan1
      \<and> Resp ?t2 = Some chan1 \<and> length (ch_buf chan1) < ch_cap chan1"
    using chan1_room by simp
  from d [THEN conjunct2, rule_format, OF o]
  have r3: "\<exists>e1 e2 c1 c2.
        process int_ops 7 engine0 ?t1 = Inr (e1, c1) \<and> process int_ops 8 e1 ?t2 = Inr (e2, c2)
        \<and> UserVolume e2 1 = 800 \<and> UserVolume e2 0 = 0"
    by (auto simp: int_ops_def engine0_def)
  from r1 r2 r3 show ?thesis by (intro conjI)
qed

text \<open>
  Claim C5 as stated fails where the doubling leaves the 64-bit range: for the value
  \<open>2^62\<close>, which \<open>/calc?val=4611686018427387904\<close> submits, the result on the channel is
  \<open>-2^63\<close>, not \<open>2^63\<close>.
\<close>

theorem dispatch_double_counterexample:
  "delivered (process int_ops 7 engine0
      \<lparr>Type = TaskTypeCalc, Value = 4611686018427387904, Price = 0, Quantity = 0,
        Resp = Some chan1, LogBuf = None\<rparr>)
     = [IntMsg (- 9223372036854775808)]
   \<and> sint (- 9223372036854775808 :: int64) = - 9223372036854775808
   \<and> 2 * sint (4611686018427387904 :: int64) = 9223372036854775808"
proof -
  let ?t = "\<lparr>Type = TaskTypeCalc, Value = 4611686018427387904, Price = 0::int, Quantity = 0,
        Resp = Some chan1, LogBuf = None\<rparr>"
  have a: "Type ?t = TaskTypeCalc" "Resp ?t = Some chan1" by simp_all
  from process_calc [OF a(1) engine0_room a(2) chan1_room, of int_ops 7]
  have "delivered (process int_ops 7 engine0 ?t) = [IntMsg (4611686018427387904 * 2)]"
    by (auto simp: delivered_def chan1_def simp del: mult_numeral_left_semiring_numeral)
  then have r: "delivered (process int_ops 7 engine0 ?t) = [IntMsg (- 9223372036854775808)]"
    by (simp only: wrapped_double)
  have s1: "sint (- 9223372036854775808 :: int64) = - 9223372036854775808" by simp
  have s2: "2 * sint (4611686018427387904 :: int64) = 9223372036854775808" by simp
  from r s1 s2 show ?thesis by (intro conjI)
qed

text \<open>
  Claim C10. For every aggregate task whose \<open>LogBuf\<close> is nil the handler calls no
  method of the logger and the \<open>OrderResult\<close> it publishes has a nil \<open>Log\<close>; \<open>Total\<close>
  and \<open>ProcessedAt\<close>, the engine it leaves and the channel are the same as for the task
  with a buffer, whose \<open>Log\<close> is the buffer followed by the log record.
\<close>

theorem nil_logbuf_no_logging:
  assumes "Type t = TaskTypeOrder" "Resp t = Some ch" "length (ch_buf ch) < ch_cap ch"
  shows "\<exists>e' total.
      total = f_mul F (Price t) (f_of_int F (Quantity t))
      \<and> process F now e (t\<lparr>LogBuf := None\<rparr>)
          = Inr (e', Some (ch\<lparr>ch_buf := ch_buf ch @
                   [OrderMsg \<lparr>Total = total, ProcessedAt = now, Log = None\<rparr>]\<rparr>))
      \<and> process F now e (t\<lparr>LogBuf := Some buf\<rparr>)
          = Inr (e', Some (ch\<lparr>ch_buf := ch_buf ch @
                   [OrderMsg \<lparr>Total = total, ProcessedAt = now,
                      Log = Some (buf @ ''ts='' @ FormatInt (sint now) @ '' type=order uid=''
                                  @ FormatInt (sint (Value t AND 1023))
                                  @ '' msg=processed'' @ [CHR 0x0A])\<rparr>]\<rparr>))"
proof -
  have a: "Type (t\<lparr>LogBuf := None\<rparr>) = TaskTypeOrder" "Resp (t\<lparr>LogBuf := None\<rparr>) = Some ch"
    "Type (t\<lparr>LogBuf := Some buf\<rparr>) = TaskTypeOrder" "Resp (t\<lparr>LogBuf := Some buf\<rparr>) = Some ch"
    using assms by simp_all
  show ?thesis
    using process_order [OF a(1,2) assms(3), of F now e]
      process_order [OF a(3,4) assms(3), of F now e]
    by simp
qed

text \<open>An order of 100 times 5 at the time 7, without a buffer and with an empty one.\<close>

theorem nil_logbuf_no_logging_witness:
  "delivered (process int_ops 7 engine0
      \<lparr>Type = TaskTypeOrder, Value = 1, Price = 100, Quantity = 5, Resp = Some chan1,
        LogBuf = None\<rparr>)
     = [OrderMsg \<lparr>Total = 500, ProcessedAt = 7, Log = None\<rparr>]
   \<and> delivered (process int_ops 7 engine0
      \<lparr>Type = TaskTypeOrder, Value = 1, Price = 100, Quantity = 5, Resp = Some chan1,
        LogBuf = Some []\<rparr>)
     = [OrderMsg \<lparr>Total = 500, ProcessedAt = 7,
          Log = Some (''ts=7 type=order uid=1 msg=processed'' @ [CHR 0x0A])\<rparr>]"
proof -
  let ?t = "\<lparr>Type = TaskTypeOrder, Value = 1, Price = 100::int, Quantity = 5, Resp = Some chan1,
        LogBuf = None\<rparr>"
  have a: "Type ?t = TaskTypeOrder" "Resp ?t = Some chan1" by simp_all
  from nil_logbuf_no_logging [OF a chan1_room, of int_ops 7 engine0 "[]"]
  show ?thesis
    by (auto simp: delivered_def chan1_def int_ops_def format_small)
qed

end
